theory Spec2Isabelle
  imports Main
begin

section \<open>Data model of \<^verbatim>\<open>src/btree.h\<close>\<close>

text \<open>
  The file defines \<^verbatim>\<open>Btree<KeyT, ValueT, ComparatorT, kCapacity>\<close>. Keys are taken from a
  linear order and \<^verbatim>\<open>comparator(a, b)\<close> is read as \<open>a < b\<close>; \<^verbatim>\<open>kCapacity\<close> is the
  parameter \<open>cap\<close> of every operation that allocates a node.

  Undefined behaviour of the C++ is an error value: an array access outside \<^verbatim>\<open>[0, kCapacity)\<close>,
  a comparison that reads a key slot nobody wrote, a dereferenced null or unwritten pointer, a
  \<^verbatim>\<open>static_cast\<close> to the wrong node class, and a \<^verbatim>\<open>std::copy\<close> over a reversed range.
\<close>

datatype error = OutOfBounds | Uninitialised | NullPointer | BadCast | BadRange

text \<open>
  A \<^verbatim>\<open>Node*\<close> is a value of \<open>node\<close>: \<open>Null\<close> for \<^verbatim>\<open>nullptr\<close> and for a pointer slot that
  was never written, otherwise the node object it points to (every node is referenced from one
  live slot only, so the pointer structure is a tree). A slot of a key or value array is
  \<open>None\<close> until it is first written. \<open>level\<close> and \<open>key_count\<close> are \<^verbatim>\<open>uint16_t\<close>: they hold
  naturals, and every assignment to them goes through \<open>u16\<close>.
\<close>

datatype ('k, 'v) node =
    Null
  | LeafNode (level: nat) (key_count: nat) (keys: "'k option list") (vals: "'v option list")
  | InnerNode (level: nat) (key_count: nat) (keys: "'k option list")
      (children: "('k, 'v) node list")

definition u16 :: "int \<Rightarrow> nat" where
  "u16 x = nat (x mod 65536)"

text \<open>\<^verbatim>\<open>new LeafNode()\<close> and \<^verbatim>\<open>new InnerNode()\<close>: the constructors set level and count only.\<close>

definition new_leaf :: "nat \<Rightarrow> ('k, 'v) node" where
  "new_leaf cap = LeafNode 0 0 (replicate cap None) (replicate cap None)"

definition new_inner :: "nat \<Rightarrow> ('k, 'v) node" where
  "new_inner cap = InnerNode 1 0 (replicate cap None) (replicate cap Null)"

subsection \<open>Array accesses\<close>

definition rd :: "'a list \<Rightarrow> nat \<Rightarrow> error + 'a" where
  "rd xs i = (if i < length xs then Inr (xs ! i) else Inl OutOfBounds)"

definition wr :: "'a list \<Rightarrow> nat \<Rightarrow> 'a \<Rightarrow> error + 'a list" where
  "wr xs i x = (if i < length xs then Inr (xs[i := x]) else Inl OutOfBounds)"

text \<open>Reading a slot in order to use its contents (compare a key, return a value).\<close>

definition rd_init :: "'a option list \<Rightarrow> nat \<Rightarrow> error + 'a" where
  "rd_init xs i =
     (if i < length xs then (case xs ! i of None \<Rightarrow> Inl Uninitialised | Some x \<Rightarrow> Inr x)
      else Inl OutOfBounds)"

text \<open>
  \<^verbatim>\<open>std::copy(src + first, src + first + n, dst)\<close> with \<open>n\<close> an \<^verbatim>\<open>int\<close>: slots are copied
  as they are, written or not.
\<close>

definition copy_range :: "'a list \<Rightarrow> nat \<Rightarrow> int \<Rightarrow> 'a list \<Rightarrow> error + 'a list" where
  "copy_range src first n dst =
     (if n < 0 then Inl BadRange
      else if first + nat n \<le> length src \<and> nat n \<le> length dst
      then Inr (take (nat n) (drop first src) @ drop (nat n) dst)
      else Inl OutOfBounds)"

subsection \<open>The binary search of both \<^verbatim>\<open>lower_bound\<close> methods\<close>

text \<open>
  Lines 50--59 and 117--126 are the same loop over \<^verbatim>\<open>int left, right, index_found\<close>;
  the two methods differ in the initial values and in what they return.
\<close>

function bsearch :: "('k::linorder) option list \<Rightarrow> 'k \<Rightarrow> int \<Rightarrow> int \<Rightarrow> int \<Rightarrow> error + int" where
  "bsearch ks key left right index_found =
     (if left \<le> right then
        (let mid = drop_bit 1 (left + right) in
         if mid < 0 then Inl OutOfBounds
         else (case rd_init ks (nat mid) of
                 Inl e \<Rightarrow> Inl e
               | Inr k \<Rightarrow>
                   if k < key then bsearch ks key (mid + 1) right index_found
                   else bsearch ks key left (mid - 1) mid))
      else Inr index_found)"
  by pat_completeness auto
termination
  by (relation "measure (\<lambda>(ks, key, left, right, index_found). nat (right - left + 1))")
     (auto simp: drop_bit_eq_div)

subsection \<open>\<^verbatim>\<open>InnerNode\<close>\<close>

text \<open>\<^verbatim>\<open>InnerNode::lower_bound\<close>, lines 41--65.\<close>

fun inner_lower_bound :: "('k::linorder, 'v) node \<Rightarrow> 'k \<Rightarrow> error + (nat \<times> bool)" where
  "inner_lower_bound (InnerNode l kc ks cs) key =
     (if kc = 0 then Inr (0, False)
      else (case bsearch ks key 0 (int kc - 2) (- 1) of
              Inl e \<Rightarrow> Inl e
            | Inr index_found \<Rightarrow>
                if index_found = - 1 then Inr (kc - 1, False)
                else Inr (nat index_found, True)))"
| "inner_lower_bound Null key = Inl NullPointer"
| "inner_lower_bound (LeafNode l kc ks vs) key = Inl BadCast"

text \<open>
  The loop of \<^verbatim>\<open>insert_split\<close>, lines 71--74, for \<^verbatim>\<open>size_t i\<close> counting down to \<open>index\<close>:
  \<^verbatim>\<open>keys[i] = keys[i - 1]; children[i + 1] = children[i]\<close>.
\<close>

fun shift_inner ::
  "nat \<Rightarrow> nat \<Rightarrow> 'k option list \<Rightarrow> ('k, 'v) node list \<Rightarrow>
   error + ('k option list \<times> ('k, 'v) node list)" where
  "shift_inner index 0 ks cs = Inr (ks, cs)"
| "shift_inner index (Suc j) ks cs =
     (if index < Suc j then
        (case rd ks j of Inl e \<Rightarrow> Inl e | Inr k \<Rightarrow>
        (case wr ks (Suc j) k of Inl e \<Rightarrow> Inl e | Inr ks' \<Rightarrow>
        (case rd cs (Suc j) of Inl e \<Rightarrow> Inl e | Inr c \<Rightarrow>
        (case wr cs (Suc j + 1) c of Inl e \<Rightarrow> Inl e | Inr cs' \<Rightarrow>
         shift_inner index j ks' cs'))))
      else Inr (ks, cs))"

text \<open>
  \<^verbatim>\<open>InnerNode::insert_split\<close>, lines 68--78. \<^verbatim>\<open>this->key_count - 1\<close> is an \<^verbatim>\<open>int\<close>
  converted to \<^verbatim>\<open>size_t\<close> (64 bits), so a count of 0 starts the loop at \<open>2^64 - 1\<close>.
\<close>

fun insert_split ::
  "('k::linorder, 'v) node \<Rightarrow> 'k \<Rightarrow> ('k, 'v) node \<Rightarrow> error + ('k, 'v) node" where
  "insert_split (InnerNode l kc ks cs) key split_child =
     (case inner_lower_bound (InnerNode l kc ks cs) key of
        Inl e \<Rightarrow> Inl e
      | Inr (index, found) \<Rightarrow>
         (case shift_inner index (if kc = 0 then 2 ^ 64 - 1 else kc - 1) ks cs of
            Inl e \<Rightarrow> Inl e
          | Inr (ks1, cs1) \<Rightarrow>
             (case wr ks1 index (Some key) of Inl e \<Rightarrow> Inl e | Inr ks2 \<Rightarrow>
             (case wr cs1 (index + 1) split_child of Inl e \<Rightarrow> Inl e | Inr cs2 \<Rightarrow>
              Inr (InnerNode l (u16 (int kc + 1)) ks2 cs2)))))"
| "insert_split Null key split_child = Inl NullPointer"
| "insert_split (LeafNode l kc ks vs) key split_child = Inl BadCast"

text \<open>
  \<^verbatim>\<open>InnerNode::split\<close>, lines 81--94: the result is the separator, the node itself and the
  right neighbour. \<open>sdiv2\<close> is the \<^verbatim>\<open>int\<close> division by 2, which truncates towards zero.
\<close>

definition sdiv2 :: "int \<Rightarrow> int" where
  "sdiv2 x = (if x < 0 then - ((- x) div 2) else x div 2)"

fun inner_split ::
  "('k, 'v) node \<Rightarrow> ('k, 'v) node \<Rightarrow> error + ('k \<times> ('k, 'v) node \<times> ('k, 'v) node)" where
  "inner_split (InnerNode l kc ks cs) (InnerNode rl rkc rks rcs) =
     (let mid_key_index = sdiv2 (int kc - 1);
          left_count = mid_key_index + 1;
          right_count = int kc - left_count
      in case copy_range ks (nat (mid_key_index + 1)) right_count rks of
           Inl e \<Rightarrow> Inl e
         | Inr rks' \<Rightarrow>
            (case copy_range cs (nat (mid_key_index + 1)) right_count rcs of
               Inl e \<Rightarrow> Inl e
             | Inr rcs' \<Rightarrow>
                (case rd_init ks (nat mid_key_index) of
                   Inl e \<Rightarrow> Inl e
                 | Inr sep \<Rightarrow>
                     Inr (sep, InnerNode l (u16 left_count) ks cs,
                          InnerNode rl (u16 right_count) rks' rcs'))))"
| "inner_split Null r = Inl NullPointer"
| "inner_split (InnerNode l kc ks cs) Null = Inl NullPointer"
| "inner_split (LeafNode l kc ks vs) r = Inl BadCast"
| "inner_split (InnerNode l kc ks cs) (LeafNode rl rkc rks rvs) = Inl BadCast"

subsection \<open>\<^verbatim>\<open>LeafNode\<close>\<close>

text \<open>\<^verbatim>\<open>LeafNode::lower_bound\<close>, lines 107--134.\<close>

fun leaf_lower_bound :: "('k::linorder, 'v) node \<Rightarrow> 'k \<Rightarrow> error + (nat \<times> bool)" where
  "leaf_lower_bound (LeafNode l kc ks vs) key =
     (if kc = 0 then Inr (0, False)
      else (case bsearch ks key 0 (int kc - 1) (int kc) of
              Inl e \<Rightarrow> Inl e
            | Inr index_found \<Rightarrow>
                if index_found < int kc then
                  (if index_found < 0 then Inl OutOfBounds
                   else (case rd_init ks (nat index_found) of
                           Inl e \<Rightarrow> Inl e
                         | Inr k \<Rightarrow> Inr (nat index_found, \<not> k < key \<and> \<not> key < k)))
                else Inr (nat index_found, False)))"
| "leaf_lower_bound Null key = Inl NullPointer"
| "leaf_lower_bound (InnerNode l kc ks cs) key = Inl BadCast"

text \<open>
  The loop of \<^verbatim>\<open>insert\<close>, lines 144--147, for \<^verbatim>\<open>uint32_t i\<close> counting down to \<open>index\<close>:
  \<^verbatim>\<open>keys[i] = keys[i - 1]; values[i] = values[i - 1]\<close>.
\<close>

fun shift_leaf ::
  "nat \<Rightarrow> nat \<Rightarrow> 'k option list \<Rightarrow> 'v option list \<Rightarrow>
   error + ('k option list \<times> 'v option list)" where
  "shift_leaf index 0 ks vs = Inr (ks, vs)"
| "shift_leaf index (Suc j) ks vs =
     (if index < Suc j then
        (case rd ks j of Inl e \<Rightarrow> Inl e | Inr k \<Rightarrow>
        (case wr ks (Suc j) k of Inl e \<Rightarrow> Inl e | Inr ks' \<Rightarrow>
        (case rd vs j of Inl e \<Rightarrow> Inl e | Inr v \<Rightarrow>
        (case wr vs (Suc j) v of Inl e \<Rightarrow> Inl e | Inr vs' \<Rightarrow>
         shift_leaf index j ks' vs'))))
      else Inr (ks, vs))"

text \<open>\<^verbatim>\<open>LeafNode::insert\<close>, lines 137--151.\<close>

fun leaf_insert :: "('k::linorder, 'v) node \<Rightarrow> 'k \<Rightarrow> 'v \<Rightarrow> error + ('k, 'v) node" where
  "leaf_insert (LeafNode l kc ks vs) key val =
     (case leaf_lower_bound (LeafNode l kc ks vs) key of
        Inl e \<Rightarrow> Inl e
      | Inr (index, found) \<Rightarrow>
          if found then
            (case wr vs index (Some val) of
               Inl e \<Rightarrow> Inl e
             | Inr vs' \<Rightarrow> Inr (LeafNode l kc ks vs'))
          else
            (case shift_leaf index kc ks vs of
               Inl e \<Rightarrow> Inl e
             | Inr (ks1, vs1) \<Rightarrow>
                (case wr ks1 index (Some key) of Inl e \<Rightarrow> Inl e | Inr ks2 \<Rightarrow>
                (case wr vs1 index (Some val) of Inl e \<Rightarrow> Inl e | Inr vs2 \<Rightarrow>
                 Inr (LeafNode l (u16 (int kc + 1)) ks2 vs2)))))"
| "leaf_insert Null key val = Inl NullPointer"
| "leaf_insert (InnerNode l kc ks cs) key val = Inl BadCast"

text \<open>\<^verbatim>\<open>LeafNode::split\<close>, lines 154--167.\<close>

fun leaf_split ::
  "('k, 'v) node \<Rightarrow> ('k, 'v) node \<Rightarrow> error + ('k \<times> ('k, 'v) node \<times> ('k, 'v) node)" where
  "leaf_split (LeafNode l kc ks vs) (LeafNode rl rkc rks rvs) =
     (let mid_key_index = int kc div 2;
          left_count = mid_key_index + 1;
          right_count = int kc - left_count
      in case copy_range ks (nat (mid_key_index + 1)) right_count rks of
           Inl e \<Rightarrow> Inl e
         | Inr rks' \<Rightarrow>
            (case copy_range vs (nat (mid_key_index + 1)) right_count rvs of
               Inl e \<Rightarrow> Inl e
             | Inr rvs' \<Rightarrow>
                (case rd_init ks (nat mid_key_index) of
                   Inl e \<Rightarrow> Inl e
                 | Inr sep \<Rightarrow>
                     Inr (sep, LeafNode l (u16 left_count) ks vs,
                          LeafNode rl (u16 right_count) rks' rvs'))))"
| "leaf_split Null r = Inl NullPointer"
| "leaf_split (LeafNode l kc ks vs) Null = Inl NullPointer"
| "leaf_split (InnerNode l kc ks cs) r = Inl BadCast"
| "leaf_split (LeafNode l kc ks vs) (InnerNode rl rkc rks rcs) = Inl BadCast"

subsection \<open>\<^verbatim>\<open>Btree::get\<close>\<close>

text \<open>
  The number of node levels below a pointer; it bounds every descent.
\<close>

fun depth :: "('k, 'v) node \<Rightarrow> nat" where
  "depth Null = 0"
| "depth (LeafNode l kc ks vs) = 1"
| "depth (InnerNode l kc ks cs) = Suc (fold max (map depth cs) 0)"

lemma depth_le_fold_max: "c \<in> set cs \<Longrightarrow> depth c \<le> fold max (map depth cs) m"
proof (induction cs arbitrary: m)
  case Nil
  then show ?case by simp
next
  case (Cons a cs)
  have mono: "m \<le> fold max (map depth cs) m" for m
    by (induction cs arbitrary: m) (auto intro: order_trans [OF max.cobounded2])
  show ?case
  proof (cases "c = a")
    case True
    then show ?thesis
      using mono [of "max (depth a) m"] by simp
  next
    case False
    with Cons show ?thesis by simp
  qed
qed

lemma depth_child: "rd cs pos = Inr c \<Longrightarrow> depth c < depth (InnerNode l kc ks cs)"
  using depth_le_fold_max [of c cs 0]
  by (auto simp: rd_def less_Suc_eq_le split: if_splits)

text \<open>
  The lock calls of \<^verbatim>\<open>get\<close> are recorded as events; a node is named by the child indices
  that lead to it from the root.
\<close>

datatype lock_event = LockRead "nat list" | UnlockRead "nat list"

text \<open>
  The loop of \<^verbatim>\<open>get\<close> and the leaf lookup after it, lines 193--214, started at
  \<open>current_node\<close>, which is read-locked.
\<close>

function get_loop ::
  "('k::linorder, 'v) node \<Rightarrow> 'k \<Rightarrow> nat list \<Rightarrow> error + (lock_event list \<times> 'v option)" where
  "get_loop Null key path = Inl NullPointer"
| "get_loop (InnerNode l kc ks cs) key path =
     (if l = 0 then Inl BadCast
      else (case inner_lower_bound (InnerNode l kc ks cs) key of
              Inl e \<Rightarrow> Inl e
            | Inr (pos, found) \<Rightarrow>
               (case rd cs pos of
                  Inl e \<Rightarrow> Inl e
                | Inr child_node \<Rightarrow>
                   (case get_loop child_node key (path @ [pos]) of
                      Inl e \<Rightarrow> Inl e
                    | Inr (evs, res) \<Rightarrow>
                        Inr (LockRead (path @ [pos]) # UnlockRead path # evs, res)))))"
| "get_loop (LeafNode l kc ks vs) key path =
     (if l \<noteq> 0 then Inl BadCast
      else (case leaf_lower_bound (LeafNode l kc ks vs) key of
              Inl e \<Rightarrow> Inl e
            | Inr (pos, found) \<Rightarrow>
                if \<not> found then Inr ([UnlockRead path], None)
                else (case rd_init vs pos of
                        Inl e \<Rightarrow> Inl e
                      | Inr res \<Rightarrow> Inr ([UnlockRead path], Some res))))"
  by pat_completeness auto
termination
  by (relation "measure (\<lambda>(n, key, path). depth n)") (auto dest: depth_child)

text \<open>\<^verbatim>\<open>Btree::get\<close>, lines 184--215, with the lock events it issues.\<close>

definition get_run ::
  "('k::linorder, 'v) node \<Rightarrow> 'k \<Rightarrow> error + (lock_event list \<times> 'v option)" where
  "get_run root key =
     (case root of
        Null \<Rightarrow> Inr ([], None)
      | _ \<Rightarrow> (case get_loop root key [] of
                Inl e \<Rightarrow> Inl e
              | Inr (evs, res) \<Rightarrow> Inr (LockRead [] # evs, res)))"

definition get :: "('k::linorder, 'v) node \<Rightarrow> 'k \<Rightarrow> error + 'v option" where
  "get root key = (case get_run root key of Inl e \<Rightarrow> Inl e | Inr (evs, res) \<Rightarrow> Inr res)"

definition get_locks :: "('k::linorder, 'v) node \<Rightarrow> 'k \<Rightarrow> error + lock_event list" where
  "get_locks root key = (case get_run root key of Inl e \<Rightarrow> Inl e | Inr (evs, res) \<Rightarrow> Inr evs)"

subsection \<open>\<^verbatim>\<open>Btree::put\<close>\<close>

text \<open>
  \<^verbatim>\<open>put\<close> changes nodes through pointers. In the model the object behind a pointer is
  rebuilt and stored in the slot that holds the pointer: \<open>cs[pos := c]\<close> is the children array
  whose slot \<open>pos\<close> points to the changed child. \<^verbatim>\<open>insert_split\<close> touches only the arrays of
  the parent and the operations on the chosen half touch only that half, so their order does
  not matter; the model finishes the two halves and then lets \<^verbatim>\<open>insert_split\<close> store the
  pointer to the right one. The lock calls of \<^verbatim>\<open>put\<close> do not change its sequential result and
  are left out.
\<close>

fun set_level :: "('k, 'v) node \<Rightarrow> nat \<Rightarrow> ('k, 'v) node" where
  "set_level Null x = Null"
| "set_level (LeafNode l kc ks vs) x = LeafNode x kc ks vs"
| "set_level (InnerNode l kc ks cs) x = InnerNode x kc ks cs"

lemma fold_max_le: "\<forall>x\<in>set xs. f x \<le> (m::nat) \<Longrightarrow> a \<le> m \<Longrightarrow> fold max (map f xs) a \<le> m"
  by (induction xs arbitrary: a) auto

lemma depth_set_level [simp]: "depth (set_level n x) = depth n"
  by (cases n) auto

lemma depth_inner_split:
  assumes "inner_split c (new_inner cap) = Inr (sep, left, right)"
  shows "depth left \<le> depth c" and "depth right \<le> depth c"
proof -
  obtain l kc ks cs where c: "c = InnerNode l kc ks cs"
    using assms by (cases c) (auto simp: new_inner_def)
  let ?m = "nat (sdiv2 (int kc - 1) + 1)"
  let ?n = "int kc - (sdiv2 (int kc - 1) + 1)"
  from assms c obtain rks rcs where
    r: "copy_range cs ?m ?n (replicate cap Null) = Inr rcs"
      "right = InnerNode 1 (u16 ?n) rks rcs" and l: "left = InnerNode l (u16 (sdiv2 (int kc - 1) + 1)) ks cs"
    by (auto simp: new_inner_def Let_def split: sum.splits)
  show "depth left \<le> depth c" using l c by simp
  from r(1) have "set rcs \<subseteq> set cs \<union> {Null}"
    by (auto simp: copy_range_def split: if_splits dest!: in_set_takeD in_set_dropD)
  then have "\<forall>x\<in>set rcs. depth x \<le> fold max (map depth cs) 0"
    using depth_le_fold_max [of _ cs 0] by auto
  then have "fold max (map depth rcs) 0 \<le> fold max (map depth cs) 0"
    by (rule fold_max_le) simp
  then show "depth right \<le> depth c" using r(2) c by simp
qed

text \<open>
  One pass of the \<^verbatim>\<open>while (true)\<close> loop, lines 316--368, and the passes after it:
  \<open>put_loop cap current_node key val\<close> is the subtree at \<open>current_node\<close> when \<^verbatim>\<open>put\<close> returns.
\<close>

function put_loop ::
  "nat \<Rightarrow> ('k::linorder, 'v) node \<Rightarrow> 'k \<Rightarrow> 'v \<Rightarrow> error + ('k, 'v) node" where
  "put_loop cap Null key val = Inl NullPointer"
| "put_loop cap (LeafNode l kc ks vs) key val = Inl BadCast"
| "put_loop cap (InnerNode l kc ks cs) key val =
     (case inner_lower_bound (InnerNode l kc ks cs) key of
        Inl e \<Rightarrow> Inl e
      | Inr (pos, found) \<Rightarrow>
         (case rd cs pos of
            Inl e \<Rightarrow> Inl e
          | Inr child_node \<Rightarrow>
             if l = 1 then
               (case child_node of
                  Null \<Rightarrow> Inl NullPointer
                | InnerNode cl ckc cks ccs \<Rightarrow> Inl BadCast
                | LeafNode cl ckc cks cvs \<Rightarrow>
                    if cap \<le> ckc then
                      (case leaf_split child_node (new_leaf cap) of
                         Inl e \<Rightarrow> Inl e
                       | Inr (separator_key, left, right) \<Rightarrow>
                           if separator_key < key then
                             (case leaf_insert right key val of
                                Inl e \<Rightarrow> Inl e
                              | Inr right' \<Rightarrow>
                                  insert_split (InnerNode l kc ks (cs[pos := left]))
                                    separator_key right')
                           else
                             (case leaf_insert left key val of
                                Inl e \<Rightarrow> Inl e
                              | Inr left' \<Rightarrow>
                                  insert_split (InnerNode l kc ks (cs[pos := left']))
                                    separator_key right))
                    else
                      (case leaf_insert child_node key val of
                         Inl e \<Rightarrow> Inl e
                       | Inr child' \<Rightarrow> Inr (InnerNode l kc ks (cs[pos := child']))))
             else
               (case child_node of
                  Null \<Rightarrow> Inl NullPointer
                | LeafNode cl ckc cks cvs \<Rightarrow> Inl BadCast
                | InnerNode cl ckc cks ccs \<Rightarrow>
                    if cap \<le> ckc then
                      (case inner_split child_node (new_inner cap) of
                         Inl e \<Rightarrow> Inl e
                       | Inr (separator_key, left, right0) \<Rightarrow>
                          (let right = set_level right0 (level left) in
                           if separator_key < key then
                             (case put_loop cap right key val of
                                Inl e \<Rightarrow> Inl e
                              | Inr right' \<Rightarrow>
                                  insert_split (InnerNode l kc ks (cs[pos := left]))
                                    separator_key right')
                           else
                             (case put_loop cap left key val of
                                Inl e \<Rightarrow> Inl e
                              | Inr left' \<Rightarrow>
                                  insert_split (InnerNode l kc ks (cs[pos := left']))
                                    separator_key right)))
                    else
                      (case put_loop cap child_node key val of
                         Inl e \<Rightarrow> Inl e
                       | Inr child' \<Rightarrow> Inr (InnerNode l kc ks (cs[pos := child']))))))"
  by pat_completeness auto
termination
proof (relation "measure (\<lambda>(cap, n, key, val). depth n)", goal_cases)
  case 1
  show ?case by simp
next
  case (2 cap l kc ks cs key val x2 pos found child cl ckc cks ccs x2c sep y left right0 right)
  then show ?case
    using depth_child [of cs pos child l kc ks] depth_inner_split(2) [of child cap sep left right0]
    by simp
next
  case (3 cap l kc ks cs key val x2 pos found child cl ckc cks ccs x2c sep y left right0 right)
  then show ?case
    using depth_child [of cs pos child l kc ks] depth_inner_split(1) [of child cap sep left right0]
    by simp
next
  case (4 cap l kc ks cs key val x2 pos found child cl ckc cks ccs)
  then show ?case
    using depth_child [of cs pos child l kc ks] by simp
qed

text \<open>
  The new root of lines 252--257 and 306--311: level and count are set, slot 0 points to the
  old root, and \<^verbatim>\<open>insert_split\<close> adds the separator and the right neighbour.
\<close>

definition new_root ::
  "nat \<Rightarrow> nat \<Rightarrow> ('k::linorder, 'v) node \<Rightarrow> 'k \<Rightarrow> ('k, 'v) node \<Rightarrow> error + ('k, 'v) node" where
  "new_root cap lvl left separator_key right =
     (case wr (replicate cap Null) 0 left of
        Inl e \<Rightarrow> Inl e
      | Inr cs \<Rightarrow> insert_split (InnerNode lvl 1 (replicate cap None) cs) separator_key right)"

text \<open>\<^verbatim>\<open>Btree::put\<close>, lines 218--370: the tree is its root pointer, and the result is the new one.\<close>

definition put ::
  "nat \<Rightarrow> ('k::linorder, 'v) node \<Rightarrow> 'k \<Rightarrow> 'v \<Rightarrow> error + ('k, 'v) node" where
  "put cap root key val =
     (case root of
        Null \<Rightarrow> leaf_insert (new_leaf cap) key val
      | LeafNode l kc ks vs \<Rightarrow>
          if l = 0 then
            (if cap \<le> kc then
               (case leaf_split root (new_leaf cap) of
                  Inl e \<Rightarrow> Inl e
                | Inr (separator_key, left, right) \<Rightarrow>
                    if separator_key < key then
                      (case leaf_insert right key val of
                         Inl e \<Rightarrow> Inl e
                       | Inr right' \<Rightarrow> new_root cap 1 left separator_key right')
                    else
                      (case leaf_insert left key val of
                         Inl e \<Rightarrow> Inl e
                       | Inr left' \<Rightarrow> new_root cap 1 left' separator_key right))
             else leaf_insert root key val)
          else Inl BadCast
      | InnerNode l kc ks cs \<Rightarrow>
          if l = 0 then Inl BadCast
          else if cap \<le> kc then
            (case inner_split root (new_inner cap) of
               Inl e \<Rightarrow> Inl e
             | Inr (separator_key, left, right0) \<Rightarrow>
                (let right = set_level right0 (level left) in
                 if separator_key < key then
                   (case put_loop cap right key val of
                      Inl e \<Rightarrow> Inl e
                    | Inr right' \<Rightarrow>
                        new_root cap (u16 (int (level left) + 1)) left separator_key right')
                 else
                   (case put_loop cap left key val of
                      Inl e \<Rightarrow> Inl e
                    | Inr left' \<Rightarrow>
                        new_root cap (u16 (int (level left) + 1)) left' separator_key right)))
          else put_loop cap root key val)"

section \<open>Binary search\<close>

text \<open>
  \<open>rank key xs\<close> is the number of leading elements of \<open>xs\<close> below \<open>key\<close>; in a strictly
  ascending list it is the index of the first element that is not less than \<open>key\<close>.
\<close>

declare bsearch.simps [simp del]

definition rank :: "('k::linorder) \<Rightarrow> 'k list \<Rightarrow> nat" where
  "rank key xs = length (takeWhile (\<lambda>x. x < key) xs)"

lemma rank_le: "rank key xs \<le> length xs"
  by (simp add: rank_def length_takeWhile_le)

lemma rank_less_iff:
  assumes "sorted_wrt (<) xs" "i < length xs"
  shows "(xs ! i < key) = (i < rank key xs)"
proof
  assume lt: "xs ! i < key"
  show "i < rank key xs"
  proof (rule ccontr)
    assume "\<not> i < rank key xs"
    then have le: "rank key xs \<le> i" by simp
    have r: "rank key xs < length xs" using le assms(2) by simp
    have "\<not> xs ! rank key xs < key"
      unfolding rank_def using r nth_length_takeWhile [of "\<lambda>x. x < key" xs]
      by (simp add: rank_def)
    moreover have "xs ! rank key xs \<le> xs ! i"
      using le assms sorted_wrt_nth_less [OF assms(1), of "rank key xs" i]
      by (cases "rank key xs = i") auto
    ultimately show False using lt by simp
  qed
next
  assume "i < rank key xs"
  then show "xs ! i < key"
    unfolding rank_def using takeWhile_nth [of i "\<lambda>x. x < key" xs] nth_mem [of i "takeWhile (\<lambda>x. x < key) xs"]
    by (auto dest: set_takeWhileD)
qed

lemma bsearch_rank:
  assumes arr: "\<forall>i<n. \<exists>x. ks ! i = Some x \<and> (x < key) = (i < c)"
    and n: "n \<le> length ks" and m: "m \<le> n"
    and bounds: "0 \<le> left" "left \<le> int c" "int c \<le> right + 1" "right + 1 \<le> int m"
    and idx: "idx = (if right + 1 < int m then right + 1 else init)"
  shows "bsearch ks key left right idx = Inr (if c < m then int c else init)"
  using bounds idx
proof (induction "nat (right - left + 1)" arbitrary: left right idx rule: less_induct)
  case less
  show ?case
  proof (cases "left \<le> right")
    case False
    with less.prems have "int c = right + 1" by simp
    with False less.prems show ?thesis
      by (subst bsearch.simps) auto
  next
    case True
    define mid where "mid = (left + right) div 2"
    have mid: "left \<le> mid" "mid \<le> right" "0 \<le> mid" using True less.prems(1) by (auto simp: mid_def)
    have midn: "nat mid < n" using mid less.prems m by auto
    then obtain x where x: "ks ! nat mid = Some x" "(x < key) = (nat mid < c)"
      using arr by blast
    have rdm: "rd_init ks (nat mid) = Inr x"
      using x midn n by (simp add: rd_init_def)
    show ?thesis
    proof (cases "x < key")
      case xl: True
      have "bsearch ks key (mid + 1) right idx = Inr (if c < m then int c else init)"
        using mid x xl less.prems True
        by (intro less.hyps) auto
      then show ?thesis
        using True xl rdm mid by (subst bsearch.simps) (simp add: drop_bit_eq_div mid_def [symmetric])
    next
      case xl: False
      have "bsearch ks key left (mid - 1) mid = Inr (if c < m then int c else init)"
        using mid x xl less.prems True midn m
        by (intro less.hyps) auto
      then show ?thesis
        using True xl rdm mid by (subst bsearch.simps) (simp add: drop_bit_eq_div mid_def [symmetric])
    qed
  qed
qed

section \<open>Leaf nodes\<close>

lemma rank_Nil [simp]: "rank key [] = 0"
  by (simp add: rank_def)

lemma rank_Cons: "rank key (a # xs) = (if a < key then Suc (rank key xs) else 0)"
  by (simp add: rank_def)

lemma rank_mem:
  assumes "sorted_wrt (<) xs"
  shows "(key \<in> set xs) = (rank key xs < length xs \<and> xs ! rank key xs = key)"
  using assms by (induction xs) (auto simp: rank_Cons)

definition ins_at :: "nat \<Rightarrow> 'a \<Rightarrow> 'a list \<Rightarrow> 'a list" where
  "ins_at i x xs = take i xs @ x # drop i xs"

lemma length_ins_at [simp]: "length (ins_at i x xs) = Suc (length xs)"
  by (simp add: ins_at_def)

lemma nth_ins_at:
  "i \<le> length xs \<Longrightarrow> j \<le> length xs \<Longrightarrow>
   ins_at i x xs ! j = (if j < i then xs ! j else if j = i then x else xs ! (j - 1))"
  by (auto simp: ins_at_def nth_append nth_Cons' min_def)

fun upd :: "('k::linorder) \<Rightarrow> 'v \<Rightarrow> ('k \<times> 'v) list \<Rightarrow> ('k \<times> 'v) list" where
  "upd k v [] = [(k, v)]"
| "upd k v ((a, b) # xs) =
     (if k < a then (k, v) # (a, b) # xs
      else if k = a then (k, v) # xs
      else (a, b) # upd k v xs)"

lemma upd_zip:
  "sorted_wrt (<) ks \<Longrightarrow> length vs = length ks \<Longrightarrow>
   upd key val (zip ks vs) =
     (if key \<in> set ks then zip ks (vs[rank key ks := val])
      else zip (ins_at (rank key ks) key ks) (ins_at (rank key ks) val vs))"
proof (induction ks arbitrary: vs)
  case Nil
  then show ?case by (simp add: ins_at_def)
next
  case (Cons a ks)
  then obtain b vs' where vs: "vs = b # vs'" by (cases vs) auto
  show ?case
    using Cons vs by (auto simp: rank_Cons ins_at_def)
qed

definition initd :: "nat \<Rightarrow> 'a option list \<Rightarrow> bool" where
  "initd n xs = (n \<le> length xs \<and> list_all (\<lambda>x. x \<noteq> None) (take n xs))"

lemma initd_nth: "initd n xs = (n \<le> length xs \<and> (\<forall>i<n. xs ! i \<noteq> None))"
  by (auto simp: initd_def list_all_length)

lemma initd_Some: "initd n xs \<Longrightarrow> i < n \<Longrightarrow> xs ! i = Some (map the (take n xs) ! i)"
  by (auto simp: initd_nth)

fun leaf_keys :: "('k, 'v) node \<Rightarrow> 'k list" where
  "leaf_keys (LeafNode l kc ks vs) = map the (take kc ks)"
| "leaf_keys Null = []"
| "leaf_keys (InnerNode l kc ks cs) = []"

fun leaf_vals :: "('k, 'v) node \<Rightarrow> 'v list" where
  "leaf_vals (LeafNode l kc ks vs) = map the (take kc vs)"
| "leaf_vals Null = []"
| "leaf_vals (InnerNode l kc ks cs) = []"

fun leaf_ok :: "nat \<Rightarrow> ('k, 'v) node \<Rightarrow> bool" where
  "leaf_ok cap (LeafNode l kc ks vs) =
     (l = 0 \<and> length ks = cap \<and> length vs = cap \<and> kc \<le> cap \<and> initd kc ks \<and> initd kc vs)"
| "leaf_ok cap Null = False"
| "leaf_ok cap (InnerNode l kc ks cs) = False"

lemma leaf_lower_bound_spec:
  assumes "leaf_ok cap n" "sorted_wrt (<) (leaf_keys n)"
  shows "leaf_lower_bound n key = Inr (rank key (leaf_keys n), key \<in> set (leaf_keys n))"
proof -
  obtain l kc ks vs where n: "n = LeafNode l kc ks vs"
    using assms(1) by (cases n) auto
  let ?xs = "map the (take kc ks)"
  let ?c = "rank key ?xs"
  have ok: "kc \<le> length ks" "initd kc ks" using assms(1) n by auto
  have len: "length ?xs = kc" using ok by simp
  have c: "?c \<le> kc" using rank_le [of key ?xs] len by simp
  have srt: "sorted_wrt (<) ?xs" using assms(2) n by simp
  show ?thesis
  proof (cases "kc = 0")
    case True
    then show ?thesis using n by simp
  next
    case False
    have arr: "\<forall>i<kc. \<exists>x. ks ! i = Some x \<and> (x < key) = (i < ?c)"
    proof (intro allI impI)
      fix i assume i: "i < kc"
      have "ks ! i = Some (?xs ! i)" using initd_Some [OF ok(2) i] .
      moreover have "(?xs ! i < key) = (i < ?c)"
        using rank_less_iff [OF srt, of i key] i len by simp
      ultimately show "\<exists>x. ks ! i = Some x \<and> (x < key) = (i < ?c)" by blast
    qed
    have bs: "bsearch ks key 0 (int kc - 1) (int kc) = Inr (if ?c < kc then int ?c else int kc)"
      by (rule bsearch_rank [OF arr ok(1)]) (use c False in auto)
    have res: "(if ?c < kc then int ?c else int kc) = int ?c" using c by auto
    show ?thesis
    proof (cases "?c < kc")
      case True
      obtain y where y: "ks ! ?c = Some y" "y = ?xs ! ?c"
        using initd_Some [OF ok(2) True] by blast
      have rdc: "rd_init ks ?c = Inr (?xs ! ?c)"
        unfolding rd_init_def y(2) [symmetric] using True ok(1) y(1) by simp
      have nl: "\<not> ?xs ! ?c < key"
        using rank_less_iff [OF srt, of ?c key] True len by simp
      have mem: "(key \<in> set ?xs) = (?xs ! ?c = key)"
        using rank_mem [OF srt, of key] True len ok(1) by auto
      show ?thesis
        using n False bs res True rdc nl mem by (auto simp del: bsearch.simps)
    next
      case False
      then have ceq: "?c = kc" using c by simp
      have "key \<notin> set ?xs" using rank_mem [OF srt, of key] ceq len by simp
      then show ?thesis
        using n \<open>kc \<noteq> 0\<close> bs res ceq by (auto simp del: bsearch.simps)
    qed
  qed
qed

lemma shift_leaf_spec:
  assumes "j < length ks \<or> j \<le> idx" "length vs = length ks"
  shows "\<exists>ks' vs'. shift_leaf idx j ks vs = Inr (ks', vs') \<and>
           length ks' = length ks \<and> length vs' = length vs \<and>
           (\<forall>i<length ks. ks' ! i = (if idx < i \<and> i \<le> j then ks ! (i - 1) else ks ! i)) \<and>
           (\<forall>i<length ks. vs' ! i = (if idx < i \<and> i \<le> j then vs ! (i - 1) else vs ! i))"
  using assms
proof (induction j arbitrary: ks vs)
  case 0
  then show ?case by simp
next
  case (Suc j)
  show ?case
  proof (cases "idx < Suc j")
    case False
    then show ?thesis by auto
  next
    case True
    with Suc.prems have j: "Suc j < length ks" by simp
    let ?ks1 = "ks[Suc j := ks ! j]" and ?vs1 = "vs[Suc j := vs ! j]"
    have "j < length ?ks1 \<or> j \<le> idx" "length ?vs1 = length ?ks1"
      using j Suc.prems by auto
    from Suc.IH [OF this] obtain ks' vs' where
      r: "shift_leaf idx j ?ks1 ?vs1 = Inr (ks', vs')"
        "length ks' = length ks" "length vs' = length vs"
        "\<forall>i<length ks. ks' ! i = (if idx < i \<and> i \<le> j then ?ks1 ! (i - 1) else ?ks1 ! i)"
        "\<forall>i<length ks. vs' ! i = (if idx < i \<and> i \<le> j then ?vs1 ! (i - 1) else ?vs1 ! i)"
      by auto
    have step: "shift_leaf idx (Suc j) ks vs = Inr (ks', vs')"
      using True j Suc.prems(2) r(1) by (simp add: rd_def wr_def)
    have k: "\<forall>i<length ks. ks' ! i = (if idx < i \<and> i \<le> Suc j then ks ! (i - 1) else ks ! i)"
      using r(4) j True by (auto simp: nth_list_update le_Suc_eq)
    have v: "\<forall>i<length ks. vs' ! i = (if idx < i \<and> i \<le> Suc j then vs ! (i - 1) else vs ! i)"
      using r(5) j True Suc.prems(2) by (auto simp: nth_list_update le_Suc_eq)
    show ?thesis using step r(2,3) k v by blast
  qed
qed

lemma u16_small [simp]: "n < 65536 \<Longrightarrow> u16 (int n) = n"
  by (simp add: u16_def)

lemma u16_Suc: "n < 65535 \<Longrightarrow> u16 (int n + 1) = Suc n"
  by (simp add: u16_def)

definition leaf_entries :: "('k, 'v) node \<Rightarrow> ('k \<times> 'v) list" where
  "leaf_entries n = zip (leaf_keys n) (leaf_vals n)"

lemma leaf_ok_lengths:
  "leaf_ok cap n \<Longrightarrow> length (leaf_keys n) = key_count n \<and> length (leaf_vals n) = key_count n"
  by (cases n) auto

lemma map_fst_leaf_entries: "leaf_ok cap n \<Longrightarrow> map fst (leaf_entries n) = leaf_keys n"
  using leaf_ok_lengths [of cap n] by (simp add: leaf_entries_def)

lemma leaf_insert_found:
  assumes "leaf_ok cap (LeafNode l kc ks vs)" "sorted_wrt (<) (map the (take kc ks))"
    and "key \<in> set (map the (take kc ks))"
  shows "leaf_insert (LeafNode l kc ks vs) key val =
           Inr (LeafNode l kc ks (vs[rank key (map the (take kc ks)) := Some val]))"
proof -
  have "rank key (map the (take kc ks)) < kc"
    using rank_mem [OF assms(2), of key] assms(1,3) by simp
  then show ?thesis
    using leaf_lower_bound_spec [of cap "LeafNode l kc ks vs" key] assms
    by (simp add: wr_def)
qed

lemma leaf_insert_new:
  assumes ok: "leaf_ok cap (LeafNode l kc ks vs)" and srt: "sorted_wrt (<) (map the (take kc ks))"
    and new: "key \<notin> set (map the (take kc ks))" and room: "kc < cap"
  shows "\<exists>ks' vs'. leaf_insert (LeafNode l kc ks vs) key val =
             Inr (LeafNode l (u16 (int kc + 1)) ks' vs') \<and>
           length ks' = cap \<and> length vs' = cap \<and> initd (Suc kc) ks' \<and> initd (Suc kc) vs' \<and>
           map the (take (Suc kc) ks') = ins_at (rank key (map the (take kc ks))) key (map the (take kc ks)) \<and>
           map the (take (Suc kc) vs') = ins_at (rank key (map the (take kc ks))) val (map the (take kc vs))"
proof -
  let ?xs = "map the (take kc ks)" and ?ys = "map the (take kc vs)"
  let ?c = "rank key ?xs"
  have len: "length ks = cap" "length vs = cap" "initd kc ks" "initd kc vs" using ok by auto
  have c: "?c \<le> kc" using rank_le [of key ?xs] len room by simp
  have lb: "leaf_lower_bound (LeafNode l kc ks vs) key = Inr (?c, False)"
    using leaf_lower_bound_spec [OF ok, of key] srt new by simp
  obtain ks1 vs1 where sh: "shift_leaf ?c kc ks vs = Inr (ks1, vs1)"
    and l1: "length ks1 = cap" "length vs1 = cap"
    and k1: "\<forall>i<cap. ks1 ! i = (if ?c < i \<and> i \<le> kc then ks ! (i - 1) else ks ! i)"
    and v1: "\<forall>i<cap. vs1 ! i = (if ?c < i \<and> i \<le> kc then vs ! (i - 1) else vs ! i)"
    using shift_leaf_spec [of kc ks ?c vs] len room by auto
  let ?ks2 = "ks1[?c := Some key]" and ?vs2 = "vs1[?c := Some val]"
  have res: "leaf_insert (LeafNode l kc ks vs) key val = Inr (LeafNode l (u16 (int kc + 1)) ?ks2 ?vs2)"
    using lb sh l1 c room by (simp add: wr_def)
  have k2: "\<forall>i\<le>kc. ?ks2 ! i = Some (ins_at ?c key ?xs ! i)"
  proof (intro allI impI)
    fix i assume i: "i \<le> kc"
    have "i \<noteq> ?c \<Longrightarrow> i - 1 < kc \<and> (?c < i \<or> i < kc)" using i c by auto
    then show "?ks2 ! i = Some (ins_at ?c key ?xs ! i)"
      using i c room l1 k1 len(1) initd_Some [OF len(3), of "i - 1"] initd_Some [OF len(3), of i]
      by (auto simp: nth_ins_at nth_list_update)
  qed
  have v2: "\<forall>i\<le>kc. ?vs2 ! i = Some (ins_at ?c val ?ys ! i)"
  proof (intro allI impI)
    fix i assume i: "i \<le> kc"
    have "i \<noteq> ?c \<Longrightarrow> i - 1 < kc \<and> (?c < i \<or> i < kc)" using i c by auto
    then show "?vs2 ! i = Some (ins_at ?c val ?ys ! i)"
      using i c room l1 v1 len(2) initd_Some [OF len(4), of "i - 1"] initd_Some [OF len(4), of i]
      by (auto simp: nth_ins_at nth_list_update)
  qed
  have ik: "initd (Suc kc) ?ks2" using k2 l1 room by (auto simp: initd_nth less_Suc_eq_le)
  have iv: "initd (Suc kc) ?vs2" using v2 l1 room by (auto simp: initd_nth less_Suc_eq_le)
  have mk: "map the (take (Suc kc) ?ks2) = ins_at ?c key ?xs"
    using k2 l1 room len by (intro nth_equalityI) (auto simp: less_Suc_eq_le)
  have mv: "map the (take (Suc kc) ?vs2) = ins_at ?c val ?ys"
    using v2 l1 room len by (intro nth_equalityI) (auto simp: less_Suc_eq_le)
  show ?thesis using res l1 ik iv mk mv by auto
qed

lemma set_map_fst_upd: "fst ` set (upd k v xs) = insert k (fst ` set xs)"
  by (induction xs rule: upd.induct) auto

lemma sorted_upd:
  "sorted_wrt (<) (map fst xs) \<Longrightarrow> sorted_wrt (<) (map fst (upd k v xs))"
proof (induction xs rule: upd.induct)
  case (1 k v)
  then show ?case by simp
next
  case (2 k v a b xs)
  have "fst ` set (upd k v xs) = insert k (fst ` set xs)" by (rule set_map_fst_upd)
  with 2 show ?case by (auto simp: image_iff)
qed

lemma map_of_upd: "map_of (upd k v xs) = (map_of xs)(k \<mapsto> v)"
  by (induction xs rule: upd.induct) (auto simp: fun_upd_twist)

lemma length_upd:
  "sorted_wrt (<) (map fst xs) \<Longrightarrow>
   length (upd k v xs) = (if k \<in> fst ` set xs then length xs else Suc (length xs))"
  by (induction xs rule: upd.induct) (auto simp: image_iff)

lemma map_fst_upd_mem:
  "sorted_wrt (<) (map fst xs) \<Longrightarrow> k \<in> fst ` set xs \<Longrightarrow> map fst (upd k v xs) = map fst xs"
  by (induction xs rule: upd.induct) (auto simp: image_iff)

lemma leaf_insert_spec:
  assumes ok: "leaf_ok cap n" and srt: "sorted_wrt (<) (leaf_keys n)"
    and room: "key \<in> set (leaf_keys n) \<or> key_count n < cap" and cap: "cap \<le> 65535"
  shows "\<exists>n'. leaf_insert n key val = Inr n' \<and> leaf_ok cap n' \<and>
           leaf_entries n' = upd key val (leaf_entries n) \<and>
           key_count n' = (if key \<in> set (leaf_keys n) then key_count n else Suc (key_count n))"
proof -
  obtain l kc ks vs where n: "n = LeafNode l kc ks vs"
    using ok by (cases n) auto
  let ?xs = "map the (take kc ks)" and ?ys = "map the (take kc vs)"
  have len: "length ?xs = kc" "length ?ys = kc" using ok n by auto
  have srt': "sorted_wrt (<) ?xs" using srt n by simp
  note uz = upd_zip [OF srt', of ?ys key val]
  show ?thesis
  proof (cases "key \<in> set ?xs")
    case True
    let ?c = "rank key ?xs"
    have c: "?c < kc" using rank_mem [OF srt', of key] True len by simp
    have res: "leaf_insert n key val = Inr (LeafNode l kc ks (vs[?c := Some val]))"
      using leaf_insert_found [of cap l kc ks vs key val] ok srt' True n by simp
    have iv: "initd kc (vs[?c := Some val])"
      using ok n c by (auto simp: initd_nth nth_list_update)
    have "map the (take kc (vs[?c := Some val])) = ?ys[?c := val]"
      using c ok n by (intro nth_equalityI) (auto simp: nth_list_update)
    then show ?thesis
      using res iv True ok n uz len by (auto simp: leaf_entries_def)
  next
    case False
    then have room': "kc < cap" using room n by simp
    from leaf_insert_new [OF ok [unfolded n] srt' False room', of val]
    obtain ks' vs' where r: "leaf_insert n key val = Inr (LeafNode l (u16 (int kc + 1)) ks' vs')"
      "length ks' = cap" "length vs' = cap" "initd (Suc kc) ks'" "initd (Suc kc) vs'"
      "map the (take (Suc kc) ks') = ins_at (rank key ?xs) key ?xs"
      "map the (take (Suc kc) vs') = ins_at (rank key ?xs) val ?ys"
      using n by auto
    have u: "u16 (int kc + 1) = Suc kc" using room' cap by (intro u16_Suc) simp
    let ?n' = "LeafNode l (Suc kc) ks' vs'"
    have 1: "leaf_insert n key val = Inr ?n'" using r(1) u by simp
    have 2: "leaf_ok cap ?n'" using r(2-5) room' ok n by simp
    have 3: "leaf_entries ?n' = upd key val (leaf_entries n)"
      using r(6,7) uz False len n by (simp add: leaf_entries_def)
    have 4: "key_count ?n' = (if key \<in> set (leaf_keys n) then key_count n else Suc (key_count n))"
      using False n by simp
    show ?thesis using 1 2 3 4 by blast
  qed
qed

lemma copy_range_nat:
  "copy_range src first (int k) dst =
     (if first + k \<le> length src \<and> k \<le> length dst
      then Inr (take k (drop first src) @ drop k dst) else Inl OutOfBounds)"
  by (simp add: copy_range_def)

lemma take_copy_range:
  assumes "copy_range src first n dst = Inr res"
  shows "length res = length dst" and "take (nat n) res = take (nat n) (drop first src)"
    and "0 \<le> n" and "first + nat n \<le> length src"
  using assms by (auto simp: copy_range_def split: if_splits)

lemma leaf_split_spec:
  assumes ok: "leaf_ok cap n" and kc: "0 < key_count n" and cap: "cap \<le> 65535"
  shows "\<exists>left right. leaf_split n (new_leaf cap) =
             Inr (leaf_keys n ! (key_count n div 2), left, right) \<and>
           leaf_ok cap left \<and> leaf_ok cap right \<and>
           key_count left = Suc (key_count n div 2) \<and>
           key_count right = key_count n - Suc (key_count n div 2) \<and>
           leaf_entries left = take (Suc (key_count n div 2)) (leaf_entries n) \<and>
           leaf_entries right = drop (Suc (key_count n div 2)) (leaf_entries n)"
proof -
  obtain l kc ks vs where n: "n = LeafNode l kc ks vs"
    using ok by (cases n) auto
  define m where "m = kc div 2"
  have len: "length ks = cap" "length vs = cap" "kc \<le> cap" "initd kc ks" "initd kc vs" "l = 0"
    using ok n by auto
  have m: "m < kc" "Suc m \<le> kc" using kc n by (auto simp: m_def)
  have ints: "int kc div 2 = int m" "nat (int m + 1) = Suc m" "int kc - (int m + 1) = int (kc - Suc m)"
    using m by (auto simp: m_def zdiv_int)
  let ?rk = "take (kc - Suc m) (drop (Suc m) ks) @ drop (kc - Suc m) (replicate cap None)"
  let ?rv = "take (kc - Suc m) (drop (Suc m) vs) @ drop (kc - Suc m) (replicate cap None)"
  have cr: "copy_range ks (Suc m) (int (kc - Suc m)) (replicate cap None) = Inr ?rk"
    "copy_range vs (Suc m) (int (kc - Suc m)) (replicate cap None) = Inr ?rv"
    using m len unfolding copy_range_nat by auto
  obtain sep where sep: "ks ! m = Some sep" "sep = map the (take kc ks) ! m"
    using initd_Some [OF len(4) m(1)] by blast
  have rdi: "rd_init ks m = Inr sep" using sep(1) m len by (simp add: rd_init_def)
  let ?left = "LeafNode l (Suc m) ks vs" and ?right = "LeafNode 0 (kc - Suc m) ?rk ?rv"
  have u: "u16 (int m + 1) = Suc m" "u16 (int (kc - Suc m)) = kc - Suc m"
    using m len cap by (auto simp: u16_def)
  have res: "leaf_split n (new_leaf cap) = Inr (sep, ?left, ?right)"
    using n cr rdi u by (simp add: new_leaf_def Let_def ints)
  have okl: "leaf_ok cap ?left" using len m by (auto simp: initd_nth)
  have tk: "take (kc - Suc m) ?rk = take (kc - Suc m) (drop (Suc m) ks)"
    "take (kc - Suc m) ?rv = take (kc - Suc m) (drop (Suc m) vs)"
    using len m by auto
  have dt: "take (kc - Suc m) (drop (Suc m) ks) = drop (Suc m) (take kc ks)"
    "take (kc - Suc m) (drop (Suc m) vs) = drop (Suc m) (take kc vs)"
    by (simp_all add: drop_take)
  have okr: "leaf_ok cap ?right"
    using len m tk dt by (auto simp: initd_def list_all_iff dest!: in_set_dropD)
  have el: "leaf_entries ?left = take (Suc m) (leaf_entries n)"
    using n m by (simp add: leaf_entries_def take_zip take_map min_def)
  have kr: "map the (take (kc - Suc m) ?rk) = drop (Suc m) (map the (take kc ks))"
    "map the (take (kc - Suc m) ?rv) = drop (Suc m) (map the (take kc vs))"
    by (subst tk, simp only: dt drop_map)+
  have er: "leaf_entries ?right = drop (Suc m) (leaf_entries n)"
    unfolding leaf_entries_def n leaf_keys.simps leaf_vals.simps kr
    by (simp add: drop_zip)
  show ?thesis
    using res okl okr el er sep n by (auto simp: m_def)
qed

section \<open>Inner nodes\<close>

fun seps :: "('k, 'v) node \<Rightarrow> 'k list" where
  "seps (InnerNode l kc ks cs) = map the (take (kc - 1) ks)"
| "seps Null = []"
| "seps (LeafNode l kc ks vs) = []"

fun kids :: "('k, 'v) node \<Rightarrow> ('k, 'v) node list" where
  "kids (InnerNode l kc ks cs) = take kc cs"
| "kids Null = []"
| "kids (LeafNode l kc ks vs) = []"

fun inner_ok :: "nat \<Rightarrow> ('k, 'v) node \<Rightarrow> bool" where
  "inner_ok cap (InnerNode l kc ks cs) =
     (length ks = cap \<and> length cs = cap \<and> 0 < kc \<and> kc \<le> cap \<and> initd (kc - 1) ks)"
| "inner_ok cap Null = False"
| "inner_ok cap (LeafNode l kc ks vs) = False"

lemma inner_ok_lengths:
  "inner_ok cap n \<Longrightarrow> length (kids n) = key_count n \<and> Suc (length (seps n)) = key_count n"
  by (cases n) auto

lemma inner_lower_bound_spec:
  assumes "inner_ok cap n" "sorted_wrt (<) (seps n)"
  shows "inner_lower_bound n key =
           Inr (rank key (seps n), rank key (seps n) < length (seps n))"
proof -
  obtain l kc ks cs where n: "n = InnerNode l kc ks cs"
    using assms(1) by (cases n) auto
  let ?xs = "map the (take (kc - 1) ks)"
  let ?c = "rank key ?xs"
  have ok: "kc - 1 \<le> length ks" "initd (kc - 1) ks" "0 < kc" using assms(1) n by auto
  have len: "length ?xs = kc - 1" using ok by simp
  have c: "?c \<le> kc - 1" using rank_le [of key ?xs] len by simp
  have srt: "sorted_wrt (<) ?xs" using assms(2) n by simp
  have arr: "\<forall>i<kc - 1. \<exists>x. ks ! i = Some x \<and> (x < key) = (i < ?c)"
  proof (intro allI impI)
    fix i assume i: "i < kc - 1"
    have "ks ! i = Some (?xs ! i)" using initd_Some [OF ok(2) i] .
    moreover have "(?xs ! i < key) = (i < ?c)"
      using rank_less_iff [OF srt, of i key] i len by simp
    ultimately show "\<exists>x. ks ! i = Some x \<and> (x < key) = (i < ?c)" by blast
  qed
  have bs: "bsearch ks key 0 (int kc - 2) (- 1) = Inr (if ?c < kc - 1 then int ?c else - 1)"
    by (rule bsearch_rank [OF arr ok(1)]) (use c ok(3) in auto)
  show ?thesis
  proof (cases "?c < kc - 1")
    case True
    then show ?thesis using n ok(3) bs len by (simp del: bsearch.simps)
  next
    case False
    then have "?c = kc - 1" using c by simp
    then show ?thesis using n ok(3) bs len by (simp del: bsearch.simps)
  qed
qed

lemma shift_inner_spec:
  assumes "j \<le> idx \<or> (j < length ks \<and> Suc j < length cs)"
  shows "\<exists>ks' cs'. shift_inner idx j ks cs = Inr (ks', cs') \<and>
           length ks' = length ks \<and> length cs' = length cs \<and>
           (\<forall>i<length ks. ks' ! i = (if idx < i \<and> i \<le> j then ks ! (i - 1) else ks ! i)) \<and>
           (\<forall>i<length cs. cs' ! i = (if Suc idx < i \<and> i \<le> Suc j then cs ! (i - 1) else cs ! i))"
  using assms
proof (induction j arbitrary: ks cs)
  case 0
  then show ?case by auto
next
  case (Suc j)
  show ?case
  proof (cases "idx < Suc j")
    case False
    then show ?thesis by auto
  next
    case True
    with Suc.prems have j: "Suc j < length ks" "Suc (Suc j) < length cs" by auto
    let ?ks1 = "ks[Suc j := ks ! j]" and ?cs1 = "cs[Suc (Suc j) := cs ! Suc j]"
    have "j \<le> idx \<or> (j < length ?ks1 \<and> Suc j < length ?cs1)"
      using j by auto
    from Suc.IH [OF this] obtain ks' cs' where
      r: "shift_inner idx j ?ks1 ?cs1 = Inr (ks', cs')"
        "length ks' = length ks" "length cs' = length cs"
        "\<forall>i<length ks. ks' ! i = (if idx < i \<and> i \<le> j then ?ks1 ! (i - 1) else ?ks1 ! i)"
        "\<forall>i<length cs. cs' ! i = (if Suc idx < i \<and> i \<le> Suc j then ?cs1 ! (i - 1) else ?cs1 ! i)"
      by auto
    have step: "shift_inner idx (Suc j) ks cs = Inr (ks', cs')"
      using True j r(1) by (simp add: rd_def wr_def)
    have k: "\<forall>i<length ks. ks' ! i = (if idx < i \<and> i \<le> Suc j then ks ! (i - 1) else ks ! i)"
      using r(4) j True by (auto simp: nth_list_update le_Suc_eq)
    have c: "\<forall>i<length cs. cs' ! i = (if Suc idx < i \<and> i \<le> Suc (Suc j) then cs ! (i - 1) else cs ! i)"
      using r(5) j True by (auto simp: nth_list_update le_Suc_eq)
    show ?thesis using step r(2,3) k c by blast
  qed
qed

lemma insert_split_spec:
  assumes ok: "inner_ok cap n" and srt: "sorted_wrt (<) (seps n)"
    and room: "key_count n < cap" and cap: "cap \<le> 65535"
  shows "\<exists>n'. insert_split n sep child = Inr n' \<and> inner_ok cap n' \<and>
           level n' = level n \<and> key_count n' = Suc (key_count n) \<and>
           seps n' = ins_at (rank sep (seps n)) sep (seps n) \<and>
           kids n' = ins_at (Suc (rank sep (seps n))) child (kids n)"
proof -
  obtain l kc ks cs where n: "n = InnerNode l kc ks cs"
    using ok by (cases n) auto
  let ?xs = "map the (take (kc - 1) ks)"
  let ?c = "rank sep ?xs"
  have len: "length ks = cap" "length cs = cap" "0 < kc" "kc < cap" "initd (kc - 1) ks"
    using ok room n by auto
  have lx: "length ?xs = kc - 1" using len by simp
  have c: "?c \<le> kc - 1" using rank_le [of sep ?xs] lx by simp
  have lb: "inner_lower_bound (InnerNode l kc ks cs) sep = Inr (?c, ?c < length ?xs)"
    using inner_lower_bound_spec [OF ok srt, of sep] by (simp only: n seps.simps)
  obtain ks1 cs1 where sh: "shift_inner ?c (kc - 1) ks cs = Inr (ks1, cs1)"
    and l1: "length ks1 = cap" "length cs1 = cap"
    and k1: "\<forall>i<cap. ks1 ! i = (if ?c < i \<and> i \<le> kc - 1 then ks ! (i - 1) else ks ! i)"
    and c1: "\<forall>i<cap. cs1 ! i = (if Suc ?c < i \<and> i \<le> Suc (kc - 1) then cs ! (i - 1) else cs ! i)"
  proof -
    have pre: "kc - 1 \<le> ?c \<or> (kc - 1 < length ks \<and> Suc (kc - 1) < length cs)"
      using len by auto
    from shift_inner_spec [OF pre, unfolded len(1,2)] that show ?thesis by blast
  qed
  let ?ks2 = "ks1[?c := Some sep]" and ?cs2 = "cs1[Suc ?c := child]"
  have u: "u16 (int kc + 1) = Suc kc" using len cap by (intro u16_Suc) simp
  let ?n' = "InnerNode l (Suc kc) ?ks2 ?cs2"
  have res: "insert_split n sep child = Inr ?n'"
    using n lb sh l1 c len u by (simp add: wr_def del: inner_lower_bound.simps)
  have k2: "\<forall>i<kc. ?ks2 ! i = Some (ins_at ?c sep ?xs ! i)"
  proof (intro allI impI)
    fix i assume i: "i < kc"
    have "i \<noteq> ?c \<Longrightarrow> i - 1 < kc - 1 \<and> (?c < i \<or> i < kc - 1)" using i c by auto
    then show "?ks2 ! i = Some (ins_at ?c sep ?xs ! i)"
      using i c len l1 k1 lx initd_Some [OF len(5), of "i - 1"] initd_Some [OF len(5), of i]
      by (auto simp: nth_ins_at nth_list_update)
  qed
  have c2: "\<forall>i\<le>kc. ?cs2 ! i = ins_at (Suc ?c) child (take kc cs) ! i"
    using c len l1 c1 by (auto simp: nth_ins_at nth_list_update)
  have ok': "inner_ok cap ?n'"
    using k2 l1 len by (auto simp: initd_nth)
  have sp: "seps ?n' = ins_at ?c sep ?xs"
    using k2 l1 len lx by (intro nth_equalityI) auto
  have kd: "kids ?n' = ins_at (Suc ?c) child (take kc cs)"
    using c2 l1 len by (intro nth_equalityI) (auto simp: less_Suc_eq_le)
  show ?thesis
    using res ok' sp kd n by simp
qed

lemma sdiv2_nat: "0 < kc \<Longrightarrow> sdiv2 (int kc - 1) = int ((kc - 1) div 2)"
  by (simp add: sdiv2_def zdiv_int of_nat_diff)

lemma inner_split_spec:
  assumes ok: "inner_ok cap n" and kc: "2 \<le> key_count n" and cap: "cap \<le> 65535"
  shows "\<exists>left right. inner_split n (new_inner cap) =
             Inr (seps n ! ((key_count n - 1) div 2), left, right) \<and>
           inner_ok cap left \<and> inner_ok cap right \<and> level left = level n \<and>
           key_count left = Suc ((key_count n - 1) div 2) \<and>
           key_count right = key_count n - Suc ((key_count n - 1) div 2) \<and>
           seps left = take ((key_count n - 1) div 2) (seps n) \<and>
           kids left = take (Suc ((key_count n - 1) div 2)) (kids n) \<and>
           seps right = drop (Suc ((key_count n - 1) div 2)) (seps n) \<and>
           kids right = drop (Suc ((key_count n - 1) div 2)) (kids n)"
proof -
  obtain l kc ks cs where n: "n = InnerNode l kc ks cs"
    using ok by (cases n) auto
  define m where "m = (kc - 1) div 2"
  have len: "length ks = cap" "length cs = cap" "kc \<le> cap" "initd (kc - 1) ks" "2 \<le> kc"
    using ok kc n by auto
  have m: "m < kc - 1" "Suc m < kc" using len(5) by (auto simp: m_def)
  have ints: "sdiv2 (int kc - 1) = int m" "nat (int m + 1) = Suc m"
    "int kc - (int m + 1) = int (kc - Suc m)"
    using m sdiv2_nat [of kc] by (auto simp: m_def)
  let ?rc = "kc - Suc m"
  let ?rk = "take ?rc (drop (Suc m) ks) @ drop ?rc (replicate cap None)"
  let ?rcs = "take ?rc (drop (Suc m) cs) @ drop ?rc (replicate cap Null)"
  have cr: "copy_range ks (Suc m) (int ?rc) (replicate cap None) = Inr ?rk"
    "copy_range cs (Suc m) (int ?rc) (replicate cap Null) = Inr ?rcs"
    using m len unfolding copy_range_nat by auto
  obtain sep where sep: "ks ! m = Some sep" "sep = map the (take (kc - 1) ks) ! m"
    using initd_Some [OF len(4) m(1)] by blast
  have rdi: "rd_init ks m = Inr sep" using sep(1) m len by (simp add: rd_init_def)
  let ?left = "InnerNode l (Suc m) ks cs" and ?right = "InnerNode 1 ?rc ?rk ?rcs"
  have u: "u16 (int m + 1) = Suc m" "u16 (int ?rc) = ?rc"
    using m len cap by (auto simp: u16_def)
  have res: "inner_split n (new_inner cap) = Inr (sep, ?left, ?right)"
    using n cr rdi u by (simp add: new_inner_def Let_def ints)
  have okl: "inner_ok cap ?left" using len m by (auto simp: initd_nth)
  have tk: "take (?rc - 1) ?rk = take (?rc - 1) (drop (Suc m) ks)"
    "take ?rc ?rcs = take ?rc (drop (Suc m) cs)"
    using len m by auto
  have dt: "take (?rc - 1) (drop (Suc m) ks) = drop (Suc m) (take (kc - 1) ks)"
    "take ?rc (drop (Suc m) cs) = drop (Suc m) (take kc cs)"
    using m by (simp_all add: drop_take)
  have "list_all (\<lambda>x. x \<noteq> None) (take (kc - 1) ks)" using len(4) by (simp add: initd_def)
  then have "list_all (\<lambda>x. x \<noteq> None) (drop (Suc m) (take (kc - 1) ks))"
    by (auto simp: list_all_iff dest!: in_set_dropD)
  then have "initd (?rc - 1) ?rk"
    unfolding initd_def tk(1) dt(1) using len m by simp
  then have okr: "inner_ok cap ?right"
    using len m by simp
  have sl: "seps ?left = take m (seps n)"
    using n m by (simp add: take_map min_def)
  have kl: "kids ?left = take (Suc m) (kids n)"
    using n m by (simp add: min_def)
  have sr: "seps ?right = drop (Suc m) (seps n)"
    unfolding n seps.simps by (subst tk, simp only: dt drop_map)
  have kr: "kids ?right = drop (Suc m) (kids n)"
    unfolding n kids.simps by (subst tk, simp only: dt)
  have res': "inner_split n (new_inner cap) = Inr (seps n ! m, ?left, ?right)"
    using res sep(2) n by simp
  have kcn: "key_count n = kc" using n by simp
  have lv: "level ?left = level n" "key_count ?left = Suc m" "key_count ?right = kc - Suc m"
    using n by simp_all
  show ?thesis
    unfolding kcn m_def [symmetric]
    using res' okl okr lv sl kl sr kr by blast
qed

lemma set_level_views [simp]:
  "seps (set_level n x) = seps n" "kids (set_level n x) = kids n"
  "key_count (set_level (InnerNode l kc ks cs) x) = kc"
  "level (set_level (InnerNode l kc ks cs) x) = x"
  "inner_ok cap (set_level n x) = inner_ok cap n"
  by (cases n; simp)+

lemma set_child_views:
  assumes "inner_ok cap (InnerNode l kc ks cs)"
  shows "inner_ok cap (InnerNode l kc ks (cs[pos := c]))"
    and "seps (InnerNode l kc ks (cs[pos := c])) = seps (InnerNode l kc ks cs)"
    and "kids (InnerNode l kc ks (cs[pos := c])) = (kids (InnerNode l kc ks cs))[pos := c]"
  using assms by (auto simp: take_update_swap)

lemma new_root_spec:
  assumes cap: "2 \<le> cap" "cap \<le> 65535"
  shows "\<exists>n'. new_root cap lvl left sep right = Inr n' \<and> inner_ok cap n' \<and>
           level n' = lvl \<and> key_count n' = 2 \<and> seps n' = [sep] \<and> kids n' = [left, right]"
proof -
  let ?n = "InnerNode lvl 1 (replicate cap None) ((replicate cap Null)[0 := left])"
  have ok: "inner_ok cap ?n" using cap by (simp add: initd_def)
  have v: "seps ?n = []" "kids ?n = [left]" "level ?n = lvl" "key_count ?n = 1"
    using cap by (auto simp: take_Suc_conv_app_nth)
  have "sorted_wrt (<) (seps ?n)" "key_count ?n < cap" using cap by auto
  from insert_split_spec [OF ok this cap(2), of sep right]
  obtain n' where n': "insert_split ?n sep right = Inr n'" "inner_ok cap n'"
    "level n' = lvl" "key_count n' = 2" "seps n' = ins_at 0 sep []"
    "kids n' = ins_at 1 right [left]"
    unfolding v by auto
  have "new_root cap lvl left sep right = Inr n'"
    using n'(1) cap by (simp add: new_root_def wr_def)
  then show ?thesis using n' by (simp add: ins_at_def)
qed

section \<open>The tree invariant\<close>

definition above_lo :: "('k::linorder) option \<Rightarrow> 'k \<Rightarrow> bool" where
  "above_lo lo k = (case lo of None \<Rightarrow> True | Some l \<Rightarrow> l < k)"

definition below_hi :: "('k::linorder) option \<Rightarrow> 'k \<Rightarrow> bool" where
  "below_hi hi k = (case hi of None \<Rightarrow> True | Some h \<Rightarrow> k \<le> h)"

definition sbelow_hi :: "('k::linorder) option \<Rightarrow> 'k \<Rightarrow> bool" where
  "sbelow_hi hi k = (case hi of None \<Rightarrow> True | Some h \<Rightarrow> k < h)"

lemma above_simps [simp]: "above_lo None k" "above_lo (Some l) k = (l < k)"
  by (simp_all add: above_lo_def)

lemma below_simps [simp]: "below_hi None k" "below_hi (Some h) k = (k \<le> h)"
  by (simp_all add: below_hi_def)

lemma sbelow_simps [simp]: "sbelow_hi None k" "sbelow_hi (Some h) k = (k < h)"
  by (simp_all add: sbelow_hi_def)

lemma above_trans: "above_lo lo a \<Longrightarrow> a \<le> b \<Longrightarrow> above_lo lo b"
  by (cases lo) auto

lemma below_trans: "below_hi hi b \<Longrightarrow> a \<le> b \<Longrightarrow> below_hi hi a"
  by (cases hi) auto

lemma sbelow_trans: "sbelow_hi hi b \<Longrightarrow> a \<le> b \<Longrightarrow> sbelow_hi hi a"
  by (cases hi) auto

lemma sbelow_below: "sbelow_hi hi a \<Longrightarrow> below_hi hi a"
  by (cases hi) auto

fun chain ::
  "(('k::linorder) option \<Rightarrow> 'k option \<Rightarrow> 'c \<Rightarrow> bool) \<Rightarrow> 'k option \<Rightarrow> 'k option \<Rightarrow>
   'k list \<Rightarrow> 'c list \<Rightarrow> bool" where
  "chain P lo hi [] [c] = P lo hi c"
| "chain P lo hi (s # ss) (c # cs) =
     (above_lo lo s \<and> sbelow_hi hi s \<and> P lo (Some s) c \<and> chain P (Some s) hi ss cs)"
| "chain P lo hi [] [] = False"
| "chain P lo hi [] (c # d # cs) = False"
| "chain P lo hi (s # ss) [] = False"

definition lob :: "'k option \<Rightarrow> 'k list \<Rightarrow> nat \<Rightarrow> 'k option" where
  "lob lo ss i = (if i = 0 then lo else Some (ss ! (i - 1)))"

definition hib :: "'k option \<Rightarrow> 'k list \<Rightarrow> nat \<Rightarrow> 'k option" where
  "hib hi ss i = (if i < length ss then Some (ss ! i) else hi)"

lemma chain_length: "chain P lo hi ss cs \<Longrightarrow> length cs = Suc (length ss)"
  by (induction P lo hi ss cs rule: chain.induct) auto

lemma chain_seps:
  "chain P lo hi ss cs \<Longrightarrow> sorted_wrt (<) ss \<and> (\<forall>s\<in>set ss. above_lo lo s \<and> sbelow_hi hi s)"
proof (induction P lo hi ss cs rule: chain.induct)
  case (2 P lo hi s ss c cs)
  then have a: "\<forall>t\<in>set ss. s < t \<and> sbelow_hi hi t" "sorted_wrt (<) ss" by auto
  have "\<forall>t\<in>set ss. above_lo lo t"
    using a(1) 2(2) above_trans [of lo s] by (auto simp: less_imp_le)
  with 2 a show ?case by auto
qed auto

lemma chain_nth:
  "chain P lo hi ss cs \<Longrightarrow> i < length cs \<Longrightarrow> P (lob lo ss i) (hib hi ss i) (cs ! i)"
proof (induction P lo hi ss cs arbitrary: i rule: chain.induct)
  case (2 P lo hi s ss c cs)
  show ?case
  proof (cases i)
    case 0
    with 2 show ?thesis by (simp add: lob_def hib_def)
  next
    case (Suc j)
    with 2 have "P (lob (Some s) ss j) (hib hi ss j) (cs ! j)" by simp
    then show ?thesis using Suc by (cases j) (auto simp: lob_def hib_def)
  qed
qed (auto simp: lob_def hib_def)

lemma chain_update:
  "chain P lo hi ss cs \<Longrightarrow> i < length cs \<Longrightarrow> P (lob lo ss i) (hib hi ss i) c' \<Longrightarrow>
   chain P lo hi ss (cs[i := c'])"
proof (induction P lo hi ss cs arbitrary: i rule: chain.induct)
  case (2 P lo hi s ss c cs)
  show ?case
  proof (cases i)
    case 0
    with 2 show ?thesis by (simp add: lob_def hib_def)
  next
    case (Suc j)
    have "P (lob (Some s) ss j) (hib hi ss j) c'"
      using 2(4) Suc by (cases j) (auto simp: lob_def hib_def)
    with 2 Suc show ?thesis by simp
  qed
qed (auto simp: lob_def hib_def)

lemma chain_insert:
  "chain P lo hi ss cs \<Longrightarrow> i < length cs \<Longrightarrow>
   above_lo (lob lo ss i) s \<Longrightarrow> sbelow_hi (hib hi ss i) s \<Longrightarrow>
   P (lob lo ss i) (Some s) l \<Longrightarrow> P (Some s) (hib hi ss i) r \<Longrightarrow>
   chain P lo hi (ins_at i s ss) (ins_at (Suc i) r (cs[i := l]))"
proof (induction P lo hi ss cs arbitrary: i rule: chain.induct)
  case (1 P lo hi c)
  then show ?case by (simp add: lob_def hib_def ins_at_def)
next
  case (2 P lo hi t ss c cs)
  show ?case
  proof (cases i)
    case 0
    with 2 show ?thesis
      by (auto simp: lob_def hib_def ins_at_def intro: sbelow_trans [of hi t])
  next
    case (Suc j)
    have a: "above_lo (lob (Some t) ss j) s" "sbelow_hi (hib hi ss j) s"
      "P (lob (Some t) ss j) (Some s) l" "P (Some s) (hib hi ss j) r"
      using 2(4-7) Suc by (cases j; auto simp: lob_def hib_def)+
    have "chain P (Some t) hi (ins_at j s ss) (ins_at (Suc j) r (cs[j := l]))"
      using 2 Suc a by simp
    then show ?thesis using 2(2) Suc by (simp add: ins_at_def)
  qed
qed (auto simp: lob_def hib_def)

lemma chain_take:
  "chain P lo hi ss cs \<Longrightarrow> m < length ss \<Longrightarrow>
   chain P lo (Some (ss ! m)) (take m ss) (take (Suc m) cs)"
proof (induction P lo hi ss cs arbitrary: m rule: chain.induct)
  case (2 P lo hi s ss c cs)
  show ?case
  proof (cases m)
    case 0
    with 2 show ?thesis by (cases cs) auto
  next
    case (Suc j)
    have "sorted_wrt (<) (s # ss)" using chain_seps [OF 2(2)] by simp
    then have "s < ss ! j" using 2(3) Suc by auto
    with 2 Suc show ?thesis by simp
  qed
qed auto

lemma chain_drop:
  "chain P lo hi ss cs \<Longrightarrow> m < length ss \<Longrightarrow>
   chain P (Some (ss ! m)) hi (drop (Suc m) ss) (drop (Suc m) cs)"
proof (induction P lo hi ss cs arbitrary: m rule: chain.induct)
  case (2 P lo hi s ss c cs)
  then show ?case by (cases m) auto
qed auto

lemma rank_eqI:
  assumes "sorted_wrt (<) ss" "c \<le> length ss" "c = 0 \<or> ss ! (c - 1) < s"
    "c < length ss \<longrightarrow> \<not> ss ! c < s"
  shows "rank s ss = c"
proof (rule ccontr)
  assume ne: "rank s ss \<noteq> c"
  note r = rank_less_iff [OF assms(1), of _ s] rank_le [of s ss]
  show False
  proof (cases "rank s ss < c")
    case True
    then have "c - 1 < length ss" "\<not> c - 1 < rank s ss" "c \<noteq> 0" using assms(2) by auto
    with r(1) [of "c - 1"] assms(3) show False by simp
  next
    case False
    with ne have "c < rank s ss" by simp
    then have "c < length ss" "ss ! c < s" using r(1) [of c] r(2) by auto
    with assms(4) show False by simp
  qed
qed

lemma rank_bounds:
  assumes "sorted_wrt (<) ss" "above_lo lo key" "below_hi hi key"
  shows "above_lo (lob lo ss (rank key ss)) key \<and> below_hi (hib hi ss (rank key ss)) key"
proof -
  note r = rank_less_iff [OF assms(1), of _ key] rank_le [of key ss]
  have "rank key ss \<noteq> 0 \<Longrightarrow> ss ! (rank key ss - 1) < key"
    using r(1) [of "rank key ss - 1"] r(2) by auto
  moreover have "rank key ss < length ss \<Longrightarrow> key \<le> ss ! rank key ss"
    using r(1) [of "rank key ss"] by auto
  ultimately show ?thesis using assms(2,3) by (auto simp: lob_def hib_def)
qed

lemma rank_of_sep:
  assumes "sorted_wrt (<) ss" "i \<le> length ss" "above_lo (lob lo ss i) s" "sbelow_hi (hib hi ss i) s"
  shows "rank s ss = i"
  using assms by (intro rank_eqI) (auto simp: lob_def hib_def split: if_splits)

function entries :: "('k, 'v) node \<Rightarrow> ('k \<times> 'v) list" where
  "entries Null = []"
| "entries (LeafNode l kc ks vs) = zip (map the (take kc ks)) (map the (take kc vs))"
| "entries (InnerNode l kc ks cs) = concat (map entries (take kc cs))"
  by pat_completeness auto
termination
proof (relation "measure depth", goal_cases)
  case 1
  show ?case by simp
next
  case (2 l kc ks cs x)
  then have "x \<in> set cs" by (auto dest: in_set_takeD)
  then show ?case using depth_le_fold_max [of x cs 0] by (simp add: less_Suc_eq_le)
qed

definition tight :: "'k option \<Rightarrow> 'k list \<Rightarrow> bool" where
  "tight hi ks = (case hi of None \<Rightarrow> True | Some s \<Rightarrow> s \<in> set ks)"

lemma tight_simps [simp]: "tight None ks" "tight (Some s) ks = (s \<in> set ks)"
  by (simp_all add: tight_def)

fun subtree_ok :: "nat \<Rightarrow> nat \<Rightarrow> ('k::linorder) option \<Rightarrow> 'k option \<Rightarrow> ('k, 'v) node \<Rightarrow> bool" where
  "subtree_ok cap 0 lo hi n =
     (leaf_ok cap n \<and> 0 < key_count n \<and> sorted_wrt (<) (leaf_keys n) \<and>
      (\<forall>k\<in>set (leaf_keys n). above_lo lo k \<and> below_hi hi k) \<and> tight hi (leaf_keys n))"
| "subtree_ok cap (Suc h) lo hi n =
     (inner_ok cap n \<and> level n = Suc h \<and> Suc h < 65536 \<and>
      chain (subtree_ok cap h) lo hi (seps n) (kids n))"

lemma entries_leaf: "leaf_ok cap n \<Longrightarrow> entries n = leaf_entries n"
  by (cases n) (auto simp: leaf_entries_def)

lemma entries_inner: "inner_ok cap n \<Longrightarrow> entries n = concat (map entries (kids n))"
  by (cases n) auto

lemma chain_bounds:
  assumes "chain P lo hi ss cs"
    and "\<And>lo hi c k. c \<in> set cs \<Longrightarrow> P lo hi c \<Longrightarrow> k \<in> K c \<Longrightarrow> above_lo lo k \<and> below_hi hi k"
  shows "\<forall>c\<in>set cs. \<forall>k\<in>K c. above_lo lo k \<and> below_hi hi k"
  using assms
proof (induction P lo hi ss cs rule: chain.induct)
  case (2 P lo hi s ss c cs)
  have first: "\<forall>k\<in>K c. above_lo lo k \<and> k \<le> s"
    using 2(3) [of c lo "Some s"] 2(2) by auto
  have "\<forall>d\<in>set cs. \<forall>k\<in>K d. above_lo (Some s) k \<and> below_hi hi k"
    using 2(1) 2(2) 2(3) by auto
  then have rest: "\<forall>d\<in>set cs. \<forall>k\<in>K d. above_lo lo k \<and> below_hi hi k"
    using 2(2) above_trans [of lo s] by (auto simp: less_imp_le)
  have "\<forall>k\<in>K c. below_hi hi k"
    using first 2(2) sbelow_below [of hi] sbelow_trans [of hi s] by auto
  with first rest show ?case by auto
qed auto

lemma chain_sorted:
  assumes "chain P lo hi ss cs"
    and "\<And>lo hi c k. c \<in> set cs \<Longrightarrow> P lo hi c \<Longrightarrow> k \<in> fst ` set (f c) \<Longrightarrow>
           above_lo lo k \<and> below_hi hi k"
    and "\<And>lo hi c. c \<in> set cs \<Longrightarrow> P lo hi c \<Longrightarrow> sorted_wrt (<) (map fst (f c))"
  shows "sorted_wrt (<) (map fst (concat (map f cs)))"
  using assms
proof (induction P lo hi ss cs rule: chain.induct)
  case (2 P lo hi s ss c cs)
  have first: "\<forall>k\<in>fst ` set (f c). k \<le> s"
    using 2(3) [of c lo "Some s"] 2(2) by auto
  have "\<forall>d\<in>set cs. \<forall>k\<in>fst ` set (f d). above_lo (Some s) k \<and> below_hi hi k"
  proof (rule chain_bounds [of P "Some s" hi ss cs])
    show "chain P (Some s) hi ss cs" using 2(2) by simp
    show "\<And>lo hi c k. c \<in> set cs \<Longrightarrow> P lo hi c \<Longrightarrow> k \<in> fst ` set (f c) \<Longrightarrow>
            above_lo lo k \<and> below_hi hi k"
      using 2(3) by (meson list.set_intros(2))
  qed
  then have rest: "\<forall>k\<in>fst ` set (concat (map f cs)). s < k" by auto
  have "sorted_wrt (<) (map fst (f c))" using 2(4) [of c lo "Some s"] 2(2) by auto
  moreover have "sorted_wrt (<) (map fst (concat (map f cs)))"
  proof (rule 2(1))
    show "chain P (Some s) hi ss cs" using 2(2) by simp
    show "\<And>lo hi c k. c \<in> set cs \<Longrightarrow> P lo hi c \<Longrightarrow> k \<in> fst ` set (f c) \<Longrightarrow>
            above_lo lo k \<and> below_hi hi k"
      using 2(3) by (meson list.set_intros(2))
    show "\<And>lo hi c. c \<in> set cs \<Longrightarrow> P lo hi c \<Longrightarrow> sorted_wrt (<) (map fst (f c))"
      using 2(4) by (meson list.set_intros(2))
  qed
  ultimately show ?case
    using first rest by (fastforce simp: sorted_wrt_append)
qed auto

lemma ok_entries:
  "subtree_ok cap h lo hi n \<Longrightarrow>
   sorted_wrt (<) (map fst (entries n)) \<and>
   (\<forall>k\<in>fst ` set (entries n). above_lo lo k \<and> below_hi hi k)"
proof (induction h arbitrary: lo hi n)
  case 0
  then show ?case
    using map_fst_leaf_entries [of cap n] entries_leaf [of cap n]
    by (metis list.set_map subtree_ok.simps(1))
next
  case (Suc h)
  then have ok: "inner_ok cap n" and ch: "chain (subtree_ok cap h) lo hi (seps n) (kids n)" by auto
  have e: "entries n = concat (map entries (kids n))" using entries_inner [OF ok] .
  have b: "\<forall>c\<in>set (kids n). \<forall>k\<in>fst ` set (entries c). above_lo lo k \<and> below_hi hi k"
    by (rule chain_bounds [OF ch]) (use Suc.IH in blast)
  have s: "sorted_wrt (<) (map fst (concat (map entries (kids n))))"
    by (rule chain_sorted [OF ch]) (use Suc.IH in blast)+
  show ?case using b s e by auto
qed

lemma upd_append_left:
  "\<forall>a\<in>fst ` set A. a < k \<Longrightarrow> upd k v (A @ B) = A @ upd k v B"
  by (induction A) auto

lemma upd_append_right:
  "\<forall>c\<in>fst ` set C. k < c \<Longrightarrow> upd k v (B @ C) = upd k v B @ C"
proof (induction B)
  case Nil
  then show ?case by (cases C) auto
next
  case (Cons b B)
  then show ?case by (cases b) auto
qed

lemma map_of_middle:
  assumes "k \<notin> fst ` set A" "k \<notin> fst ` set C"
  shows "map_of (A @ B @ C) k = map_of B k"
proof -
  have "map_of A k = None" "map_of C k = None"
    using assms by (simp_all add: map_of_eq_None_iff)
  then show ?thesis by (simp add: map_add_def split: option.splits)
qed

lemma chain_split_keys:
  assumes ch: "chain (subtree_ok cap h) lo hi ss cs" and pos: "pos < length cs"
    and key: "above_lo (lob lo ss pos) key" "below_hi (hib hi ss pos) key"
  shows "\<forall>k\<in>fst ` set (concat (map entries (take pos cs))). k < key"
    and "\<forall>k\<in>fst ` set (concat (map entries (drop (Suc pos) cs))). key < k"
proof -
  have len: "length cs = Suc (length ss)" using chain_length [OF ch] .
  show "\<forall>k\<in>fst ` set (concat (map entries (take pos cs))). k < key"
  proof (cases pos)
    case 0
    then show ?thesis by simp
  next
    case (Suc j)
    then have j: "j < length ss" using pos len by simp
    have c: "chain (subtree_ok cap h) lo (Some (ss ! j)) (take j ss) (take (Suc j) cs)"
      using chain_take [OF ch j] .
    have "\<forall>c\<in>set (take (Suc j) cs). \<forall>k\<in>fst ` set (entries c). above_lo lo k \<and> below_hi (Some (ss ! j)) k"
      by (rule chain_bounds [OF c]) (use ok_entries in blast)
    moreover have "ss ! j < key" using key(1) Suc by (simp add: lob_def)
    ultimately show ?thesis using Suc by fastforce
  qed
  show "\<forall>k\<in>fst ` set (concat (map entries (drop (Suc pos) cs))). key < k"
  proof (cases "pos < length ss")
    case False
    then show ?thesis using pos len by simp
  next
    case True
    have c: "chain (subtree_ok cap h) (Some (ss ! pos)) hi (drop (Suc pos) ss) (drop (Suc pos) cs)"
      using chain_drop [OF ch True] .
    have "\<forall>c\<in>set (drop (Suc pos) cs). \<forall>k\<in>fst ` set (entries c).
            above_lo (Some (ss ! pos)) k \<and> below_hi hi k"
      by (rule chain_bounds [OF c]) (use ok_entries in blast)
    moreover have "key \<le> ss ! pos" using key(2) True by (simp add: hib_def)
    ultimately show ?thesis by fastforce
  qed
qed

declare inner_lower_bound.simps [simp del] leaf_lower_bound.simps [simp del]
  leaf_insert.simps [simp del] leaf_split.simps [simp del]
  inner_split.simps [simp del] insert_split.simps [simp del]

lemma ok_leaf_insert:
  assumes inv: "subtree_ok cap 0 lo hi n" and key: "above_lo lo key" "below_hi hi key"
    and room: "key \<in> set (leaf_keys n) \<or> key_count n < cap" and cap: "cap \<le> 65535"
  shows "\<exists>n'. leaf_insert n key val = Inr n' \<and> subtree_ok cap 0 lo hi n' \<and>
           entries n' = upd key val (entries n) \<and> key_count n' \<le> Suc (key_count n)"
proof -
  have ok: "leaf_ok cap n" and srt: "sorted_wrt (<) (leaf_keys n)" using inv by auto
  from leaf_insert_spec [OF ok srt room cap, of val]
  obtain n' where n': "leaf_insert n key val = Inr n'" "leaf_ok cap n'"
    "leaf_entries n' = upd key val (leaf_entries n)"
    "key_count n' = (if key \<in> set (leaf_keys n) then key_count n else Suc (key_count n))"
    by blast
  have mf: "map fst (leaf_entries n) = leaf_keys n" "map fst (leaf_entries n') = leaf_keys n'"
    using map_fst_leaf_entries ok n'(2) by blast+
  have s': "sorted_wrt (<) (leaf_keys n')"
    using sorted_upd [of "leaf_entries n" key val] srt mf n'(3) by simp
  have "set (leaf_keys n') = insert key (set (leaf_keys n))"
    using set_map_fst_upd [of key val "leaf_entries n"] mf n'(3)
    by (metis list.set_map)
  then have b: "\<forall>k\<in>set (leaf_keys n'). above_lo lo k \<and> below_hi hi k"
    using inv key by auto
  have c: "0 < key_count n'" "key_count n' \<le> Suc (key_count n)"
    using n'(4) inv by (auto split: if_splits)
  have t: "tight hi (leaf_keys n')"
    using inv \<open>set (leaf_keys n') = insert key (set (leaf_keys n))\<close> by (cases hi) auto
  have "subtree_ok cap 0 lo hi n'" using n'(2) s' b c t by simp
  moreover have "entries n' = upd key val (entries n)"
    using n'(3) entries_leaf [OF ok] entries_leaf [OF n'(2)] by simp
  ultimately show ?thesis using n'(1) c by blast
qed

lemma ok_leaf_split:
  assumes inv: "subtree_ok cap 0 lo hi n" and full: "key_count n = cap" and cap: "3 \<le> cap" "cap \<le> 65535"
  shows "\<exists>sep left right. leaf_split n (new_leaf cap) = Inr (sep, left, right) \<and>
           above_lo lo sep \<and> sbelow_hi hi sep \<and>
           subtree_ok cap 0 lo (Some sep) left \<and> subtree_ok cap 0 (Some sep) hi right \<and>
           key_count left < cap \<and> key_count right < cap \<and>
           entries n = entries left @ entries right"
proof -
  have ok: "leaf_ok cap n" and srt: "sorted_wrt (<) (leaf_keys n)"
    and bd: "\<forall>k\<in>set (leaf_keys n). above_lo lo k \<and> below_hi hi k" using inv by auto
  define m where "m = cap div 2"
  have m: "Suc m < cap" using cap by (auto simp: m_def)
  have len: "length (leaf_keys n) = cap" using leaf_ok_lengths [OF ok] full by simp
  from leaf_split_spec [OF ok _ cap(2)] full cap
  obtain left right where r: "leaf_split n (new_leaf cap) = Inr (leaf_keys n ! m, left, right)"
    "leaf_ok cap left" "leaf_ok cap right" "key_count left = Suc m" "key_count right = cap - Suc m"
    "leaf_entries left = take (Suc m) (leaf_entries n)"
    "leaf_entries right = drop (Suc m) (leaf_entries n)"
    unfolding m_def by auto
  let ?sep = "leaf_keys n ! m"
  have kl: "leaf_keys left = take (Suc m) (leaf_keys n)"
    using map_fst_leaf_entries [OF r(2)] map_fst_leaf_entries [OF ok] r(6) by (metis take_map)
  have kr: "leaf_keys right = drop (Suc m) (leaf_keys n)"
    using map_fst_leaf_entries [OF r(3)] map_fst_leaf_entries [OF ok] r(7) by (metis drop_map)
  have sep_in: "?sep \<in> set (leaf_keys n)" using m len by simp
  have next_in: "leaf_keys n ! Suc m \<in> set (leaf_keys n)" using m len by simp
  have lt: "?sep < leaf_keys n ! Suc m"
    using sorted_wrt_nth_less [OF srt, of m "Suc m"] m len by simp
  have a: "above_lo lo ?sep" using bd sep_in by blast
  have sb: "sbelow_hi hi ?sep"
    using bd next_in lt by (cases hi) (auto simp del: nth_mem)
  have lle: "\<forall>k\<in>set (leaf_keys left). k \<le> ?sep"
  proof
    fix k assume "k \<in> set (leaf_keys left)"
    then obtain i where i: "i < Suc m" "k = leaf_keys n ! i"
      using kl m len by (auto simp: in_set_conv_nth)
    show "k \<le> ?sep"
      using sorted_wrt_nth_less [OF srt, of i m] i m len by (cases "i = m") auto
  qed
  have rgt: "\<forall>k\<in>set (leaf_keys right). ?sep < k"
  proof
    fix k assume "k \<in> set (leaf_keys right)"
    then obtain i where i: "i < cap - Suc m" "k = leaf_keys n ! (Suc m + i)"
      using kr m len by (auto simp: in_set_conv_nth)
    show "?sep < k"
      using sorted_wrt_nth_less [OF srt, of m "Suc m + i"] i m len by auto
  qed
  have sl: "sorted_wrt (<) (leaf_keys left)" "sorted_wrt (<) (leaf_keys right)"
    using srt kl kr by (auto intro: sorted_wrt_take sorted_wrt_drop)
  have sub: "set (leaf_keys left) \<subseteq> set (leaf_keys n)" "set (leaf_keys right) \<subseteq> set (leaf_keys n)"
    using kl kr by (auto dest: in_set_takeD in_set_dropD)
  have tl: "?sep \<in> set (leaf_keys left)"
    unfolding kl using m len by (auto simp: in_set_conv_nth intro!: exI [of _ m])
  have tr: "tight hi (leaf_keys right)"
  proof (cases hi)
    case None
    then show ?thesis by simp
  next
    case (Some s)
    then have s: "s \<in> set (leaf_keys n)" "\<forall>k\<in>set (leaf_keys n). k \<le> s" using inv by auto
    then obtain j where j: "j < cap" "leaf_keys n ! j = s" using len by (auto simp: in_set_conv_nth)
    have "leaf_keys n ! (cap - 1) \<in> set (leaf_keys n)" using len m by (intro nth_mem) simp
    then have "leaf_keys n ! (cap - 1) \<le> s" using s(2) by blast
    moreover have "j < cap - 1 \<Longrightarrow> s < leaf_keys n ! (cap - 1)"
      using sorted_wrt_nth_less [OF srt, of j "cap - 1"] j len by simp
    ultimately have "j = cap - 1" using j(1) by (cases "j < cap - 1") auto
    have idx: "Suc m + (cap - 1 - Suc m) = cap - 1" using m by simp
    have "drop (Suc m) (leaf_keys n) ! (cap - 1 - Suc m) =
        leaf_keys n ! (Suc m + (cap - 1 - Suc m))"
      using m len by (intro nth_drop) simp
    then have "s = leaf_keys right ! (cap - 1 - Suc m)"
      unfolding kr idx using j \<open>j = cap - 1\<close> by simp
    moreover have "cap - 1 - Suc m < length (leaf_keys right)" unfolding kr using m len by simp
    ultimately show ?thesis using Some by (auto simp del: nth_mem intro: nth_mem)
  qed
  have wl: "subtree_ok cap 0 lo (Some ?sep) left"
    using r(2,4) sl(1) lle sub(1) bd tl by auto
  have wr: "subtree_ok cap 0 (Some ?sep) hi right"
    using r(3,5) sl(2) rgt sub(2) bd m tr by auto
  have e: "entries n = entries left @ entries right"
    using entries_leaf [OF ok] entries_leaf [OF r(2)] entries_leaf [OF r(3)] r(6,7) by simp
  show ?thesis using r(1,4,5) a sb wl wr e m by auto
qed

lemma ok_inner_split:
  assumes inv: "subtree_ok cap (Suc h) lo hi n" and full: "2 \<le> key_count n" and cap: "cap \<le> 65535"
  shows "\<exists>sep left right. inner_split n (new_inner cap) = Inr (sep, left, right) \<and>
           above_lo lo sep \<and> sbelow_hi hi sep \<and>
           subtree_ok cap (Suc h) lo (Some sep) left \<and>
           subtree_ok cap (Suc h) (Some sep) hi (set_level right (level left)) \<and>
           level left = Suc h \<and>
           key_count left < key_count n \<and> key_count (set_level right (level left)) < key_count n \<and>
           entries n = entries left @ entries (set_level right (level left))"
proof -
  have ok: "inner_ok cap n" and lv: "level n = Suc h" "Suc h < 65536"
    and ch: "chain (subtree_ok cap h) lo hi (seps n) (kids n)" using inv by auto
  define m where "m = (key_count n - 1) div 2"
  have len: "Suc (length (seps n)) = key_count n" "length (kids n) = key_count n"
    using inner_ok_lengths [OF ok] by auto
  have m: "m < length (seps n)" "Suc m < key_count n" using full len by (auto simp: m_def)
  from inner_split_spec [OF ok full cap]
  obtain left right where r: "inner_split n (new_inner cap) = Inr (seps n ! m, left, right)"
    "inner_ok cap left" "inner_ok cap right" "level left = level n"
    "key_count left = Suc m" "key_count right = key_count n - Suc m"
    "seps left = take m (seps n)" "kids left = take (Suc m) (kids n)"
    "seps right = drop (Suc m) (seps n)" "kids right = drop (Suc m) (kids n)"
    unfolding m_def by blast
  let ?sep = "seps n ! m" and ?right = "set_level right (level left)"
  obtain rl rkc rks rcs where right: "right = InnerNode rl rkc rks rcs"
    using r(3) by (cases right) auto
  have rv: "level ?right = Suc h" "key_count ?right = key_count n - Suc m"
    using right r(4,6) lv by auto
  have sb: "above_lo lo ?sep" "sbelow_hi hi ?sep"
    using chain_seps [OF ch] m by auto
  have wl: "subtree_ok cap (Suc h) lo (Some ?sep) left"
    using r(2,4,7,8) lv chain_take [OF ch m(1)] by simp
  have wr: "subtree_ok cap (Suc h) (Some ?sep) hi ?right"
    using r(3,9,10) rv lv chain_drop [OF ch m(1)] by simp
  have "entries n = concat (map entries (take (Suc m) (kids n) @ drop (Suc m) (kids n)))"
    using entries_inner [OF ok] by simp
  also have "\<dots> = entries left @ entries ?right"
    using entries_inner [OF r(2)] entries_inner [of cap ?right] r(3,8,10)
    by (simp del: append_take_drop_id)
  finally have e: "entries n = entries left @ entries ?right" .
  show ?thesis
    using r(1,4,5) rv lv sb wl wr e m by auto
qed

declare put_loop.simps [simp del] get_loop.simps [simp del]
declare seps.simps [simp del] kids.simps [simp del]

lemma concat_map_nth:
  "pos < length cs \<Longrightarrow>
   concat (map f cs) = concat (map f (take pos cs)) @ f (cs ! pos) @ concat (map f (drop (Suc pos) cs))"
  by (subst id_take_nth_drop [of pos cs]) (simp_all del: append_take_drop_id)

lemma concat_map_update:
  "pos < length cs \<Longrightarrow>
   concat (map f (cs[pos := c])) =
     concat (map f (take pos cs)) @ f c @ concat (map f (drop (Suc pos) cs))"
  by (simp add: upd_conv_take_nth_drop)

lemma ins_at_update:
  "pos < length cs \<Longrightarrow> ins_at (Suc pos) r (cs[pos := l]) = take pos cs @ l # r # drop (Suc pos) cs"
  by (simp add: ins_at_def upd_conv_take_nth_drop take_Suc_conv_app_nth)

lemma concat_map_ins:
  "pos < length cs \<Longrightarrow>
   concat (map f (ins_at (Suc pos) r (cs[pos := l]))) =
     concat (map f (take pos cs)) @ f l @ f r @ concat (map f (drop (Suc pos) cs))"
  by (simp add: ins_at_update)

lemma upd_middle:
  "\<forall>a\<in>fst ` set A. a < k \<Longrightarrow> \<forall>c\<in>fst ` set C. k < c \<Longrightarrow>
   upd k v (A @ B @ C) = A @ upd k v B @ C"
  by (simp add: upd_append_left upd_append_right)

lemma ok_replace_child:
  assumes inv: "subtree_ok cap (Suc h) lo hi (InnerNode l kc ks cs)" and pos: "pos < kc"
    and key: "above_lo (lob lo (seps (InnerNode l kc ks cs)) pos) key"
      "below_hi (hib hi (seps (InnerNode l kc ks cs)) pos) key"
    and c': "subtree_ok cap h (lob lo (seps (InnerNode l kc ks cs)) pos)
               (hib hi (seps (InnerNode l kc ks cs)) pos) c'"
      "entries c' = upd key val (entries (cs ! pos))"
  shows "subtree_ok cap (Suc h) lo hi (InnerNode l kc ks (cs[pos := c'])) \<and>
         entries (InnerNode l kc ks (cs[pos := c'])) = upd key val (entries (InnerNode l kc ks cs))"
proof -
  let ?n = "InnerNode l kc ks cs" and ?n' = "InnerNode l kc ks (cs[pos := c'])"
  have ok: "inner_ok cap ?n" and ch: "chain (subtree_ok cap h) lo hi (seps ?n) (kids ?n)"
    and lv: "l = Suc h" "Suc h < 65536" using inv by auto
  note v = set_child_views [OF ok, of pos c']
  have len: "length (kids ?n) = kc" using inner_ok_lengths [OF ok] by simp
  have p: "pos < length (kids ?n)" using pos len by simp
  have kp: "kids ?n ! pos = cs ! pos" using pos by (simp add: kids.simps)
  have "chain (subtree_ok cap h) lo hi (seps ?n) ((kids ?n)[pos := c'])"
    using chain_update [OF ch p c'(1)] .
  then have w: "subtree_ok cap (Suc h) lo hi ?n'" using v lv by simp
  note sk = chain_split_keys [OF ch p key]
  have "entries ?n' = concat (map entries ((kids ?n)[pos := c']))"
    using entries_inner [OF v(1)] v(3) by simp
  also have "\<dots> = concat (map entries (take pos (kids ?n))) @ upd key val (entries (cs ! pos)) @
      concat (map entries (drop (Suc pos) (kids ?n)))"
    by (simp only: concat_map_update [OF p] c'(2))
  also have "\<dots> = upd key val (concat (map entries (take pos (kids ?n))) @ entries (cs ! pos) @
      concat (map entries (drop (Suc pos) (kids ?n))))"
    using upd_middle [OF sk] by simp
  also have "\<dots> = upd key val (entries ?n)"
    using concat_map_nth [OF p, of entries] kp entries_inner [OF ok] by simp
  finally have e: "entries ?n' = upd key val (entries ?n)" .
  show ?thesis using w e by blast
qed

lemma ok_split_child:
  assumes inv: "subtree_ok cap (Suc h) lo hi (InnerNode l kc ks cs)" and room: "kc < cap"
    and pos: "pos < kc" and cap: "cap \<le> 65535"
    and key: "above_lo (lob lo (seps (InnerNode l kc ks cs)) pos) key"
      "below_hi (hib hi (seps (InnerNode l kc ks cs)) pos) key"
    and sep: "above_lo (lob lo (seps (InnerNode l kc ks cs)) pos) sep"
      "sbelow_hi (hib hi (seps (InnerNode l kc ks cs)) pos) sep"
    and halves: "subtree_ok cap h (lob lo (seps (InnerNode l kc ks cs)) pos) (Some sep) left"
      "subtree_ok cap h (Some sep) (hib hi (seps (InnerNode l kc ks cs)) pos) right"
      "entries left @ entries right = upd key val (entries (cs ! pos))"
  shows "\<exists>n'. insert_split (InnerNode l kc ks (cs[pos := left])) sep right = Inr n' \<and>
           subtree_ok cap (Suc h) lo hi n' \<and> entries n' = upd key val (entries (InnerNode l kc ks cs))"
proof -
  let ?n = "InnerNode l kc ks cs" and ?n1 = "InnerNode l kc ks (cs[pos := left])"
  have ok: "inner_ok cap ?n" and ch: "chain (subtree_ok cap h) lo hi (seps ?n) (kids ?n)"
    and lv: "l = Suc h" "Suc h < 65536" using inv by auto
  note v = set_child_views [OF ok, of pos left]
  have len: "length (kids ?n) = kc" "Suc (length (seps ?n)) = kc"
    using inner_ok_lengths [OF ok] by auto
  have p: "pos < length (kids ?n)" using pos len by simp
  have kp: "kids ?n ! pos = cs ! pos" using pos by (simp add: kids.simps)
  have srt: "sorted_wrt (<) (seps ?n)" using chain_seps [OF ch] by simp
  have rk: "rank sep (seps ?n) = pos"
    using rank_of_sep [OF srt _ sep] pos len by simp
  have "sorted_wrt (<) (seps ?n1)" "key_count ?n1 < cap" using srt v(2) room by auto
  from insert_split_spec [OF v(1) this cap, of sep right]
  obtain n' where n': "insert_split ?n1 sep right = Inr n'" "inner_ok cap n'"
    "level n' = l" "seps n' = ins_at pos sep (seps ?n)"
    "kids n' = ins_at (Suc pos) right ((kids ?n)[pos := left])"
    using v(2,3) rk by auto
  have "chain (subtree_ok cap h) lo hi (seps n') (kids n')"
    unfolding n'(4,5) using chain_insert [OF ch p sep halves(1,2)] .
  then have w: "subtree_ok cap (Suc h) lo hi n'" using n'(2,3) lv by simp
  note sk = chain_split_keys [OF ch p key]
  have "entries n' = concat (map entries (take pos (kids ?n))) @
      upd key val (entries (cs ! pos)) @ concat (map entries (drop (Suc pos) (kids ?n)))"
    using entries_inner [OF n'(2)] n'(5) concat_map_ins [OF p, of entries right left] halves(3)
    by simp
  also have "\<dots> = upd key val (concat (map entries (take pos (kids ?n))) @ entries (cs ! pos) @
      concat (map entries (drop (Suc pos) (kids ?n))))"
    using upd_middle [OF sk] by simp
  also have "\<dots> = upd key val (entries ?n)"
    using concat_map_nth [OF p, of entries] kp entries_inner [OF ok] by simp
  finally show ?thesis using w n'(1) by blast
qed

lemma upd_halves:
  assumes "\<forall>a\<in>fst ` set A. a \<le> sep" "\<forall>b\<in>fst ` set B. sep < b"
  shows "upd key val (A @ B) = (if sep < key then A @ upd key val B else upd key val A @ B)"
proof (cases "sep < key")
  case True
  then have "\<forall>a\<in>fst ` set A. a < key" using assms(1) by auto
  then show ?thesis using True upd_append_left by metis
next
  case False
  then have "\<forall>b\<in>fst ` set B. key < b" using assms(2) by auto
  then show ?thesis using False upd_append_right by metis
qed

lemma ok_halves_keys:
  assumes "subtree_ok cap h lo (Some sep) left" "subtree_ok cap h (Some sep) hi right"
  shows "\<forall>a\<in>fst ` set (entries left). a \<le> sep" "\<forall>b\<in>fst ` set (entries right). sep < b"
  using ok_entries [OF assms(1)] ok_entries [OF assms(2)] by auto

section \<open>Lookup and insertion on a subtree\<close>

lemma route_spec:
  assumes inv: "subtree_ok cap (Suc h) lo hi n" and key: "above_lo lo key" "below_hi hi key"
  obtains l kc ks cs pos f where "n = InnerNode l kc ks cs" "l = Suc h" "pos < kc"
    "inner_lower_bound n key = Inr (pos, f)" "rd cs pos = Inr (cs ! pos)"
    "subtree_ok cap h (lob lo (seps n) pos) (hib hi (seps n) pos) (cs ! pos)"
    "above_lo (lob lo (seps n) pos) key" "below_hi (hib hi (seps n) pos) key"
proof -
  have ok: "inner_ok cap n" and ch: "chain (subtree_ok cap h) lo hi (seps n) (kids n)"
    and lv: "level n = Suc h" using inv by auto
  obtain l kc ks cs where n: "n = InnerNode l kc ks cs" using ok by (cases n) auto
  define pos where "pos = rank key (seps n)"
  have srt: "sorted_wrt (<) (seps n)" using chain_seps [OF ch] by simp
  have len: "length (kids n) = kc" "Suc (length (seps n)) = kc" "length cs = cap" "kc \<le> cap"
    using inner_ok_lengths [OF ok] ok n by auto
  have pos: "pos < kc" using rank_le [of key "seps n"] len by (simp add: pos_def)
  have lb: "inner_lower_bound n key = Inr (pos, pos < length (seps n))"
    using inner_lower_bound_spec [OF ok srt] by (simp add: pos_def)
  have rdc: "rd cs pos = Inr (cs ! pos)" using pos len by (simp add: rd_def)
  have kp: "kids n ! pos = cs ! pos" using pos n by (simp add: kids.simps)
  have c: "subtree_ok cap h (lob lo (seps n) pos) (hib hi (seps n) pos) (cs ! pos)"
    using chain_nth [OF ch, of pos] pos len kp by simp
  have b: "above_lo (lob lo (seps n) pos) key" "below_hi (hib hi (seps n) pos) key"
    using rank_bounds [OF srt key] by (simp_all add: pos_def)
  show ?thesis using that [OF n _ pos lb rdc c b] lv n by simp
qed

lemma get_loop_spec:
  "subtree_ok cap h lo hi n \<Longrightarrow> above_lo lo key \<Longrightarrow> below_hi hi key \<Longrightarrow>
   \<exists>evs. get_loop n key path = Inr (evs, map_of (entries n) key)"
proof (induction h arbitrary: lo hi n path)
  case 0
  then have ok: "leaf_ok cap n" and srt: "sorted_wrt (<) (leaf_keys n)" by auto
  obtain l kc ks vs where n: "n = LeafNode l kc ks vs" using ok by (cases n) auto
  have len: "length (leaf_keys n) = kc" "length (leaf_vals n) = kc" "initd kc vs" "l = 0"
    using leaf_ok_lengths [OF ok] ok n by auto
  have dist: "distinct (leaf_keys n)" using srt by (simp add: strict_sorted_iff)
  have e: "entries n = zip (leaf_keys n) (leaf_vals n)"
    using entries_leaf [OF ok] by (simp add: leaf_entries_def)
  let ?c = "rank key (leaf_keys n)"
  have lb: "leaf_lower_bound (LeafNode l kc ks vs) key = Inr (?c, key \<in> set (leaf_keys n))"
    using leaf_lower_bound_spec [OF ok srt] n by simp
  show ?case
  proof (cases "key \<in> set (leaf_keys n)")
    case True
    then have c: "?c < kc" "leaf_keys n ! ?c = key"
      using rank_mem [OF srt, of key] len by auto
    have "vs ! ?c = Some (leaf_vals n ! ?c)"
      using initd_Some [OF len(3) c(1)] n by simp
    then have rv: "rd_init vs ?c = Inr (leaf_vals n ! ?c)"
      using c(1) len(3) by (simp add: rd_init_def initd_def)
    have "map_of (zip (leaf_keys n) (leaf_vals n)) (leaf_keys n ! ?c) = Some (leaf_vals n ! ?c)"
      using map_of_zip_nth [of "leaf_keys n" "leaf_vals n" ?c] len dist c(1) by simp
    then have "map_of (entries n) key = Some (leaf_vals n ! ?c)" using e c(2) by simp
    then show ?thesis
      using lb rv True len(4) unfolding n by (simp add: get_loop.simps)
  next
    case False
    then have "map_of (entries n) key = None"
      using e len by (simp add: map_of_zip_is_None)
    then show ?thesis
      using lb False len(4) unfolding n by (simp add: get_loop.simps)
  qed
next
  case (Suc h)
  from route_spec [OF Suc.prems]
  obtain l kc ks cs pos f where r: "n = InnerNode l kc ks cs" "l = Suc h" "pos < kc"
    "inner_lower_bound n key = Inr (pos, f)" "rd cs pos = Inr (cs ! pos)"
    "subtree_ok cap h (lob lo (seps n) pos) (hib hi (seps n) pos) (cs ! pos)"
    "above_lo (lob lo (seps n) pos) key" "below_hi (hib hi (seps n) pos) key"
    by blast
  have ok: "inner_ok cap n" and ch: "chain (subtree_ok cap h) lo hi (seps n) (kids n)"
    using Suc.prems(1) by auto
  from Suc.IH [OF r(6,7,8), of "path @ [pos]"]
  obtain evs where evs: "get_loop (cs ! pos) key (path @ [pos]) = Inr (evs, map_of (entries (cs ! pos)) key)"
    by blast
  have p: "pos < length (kids n)" using inner_ok_lengths [OF ok] r(1,3) by simp
  have kp: "kids n ! pos = cs ! pos" using r(1,3) by (simp add: kids.simps)
  note sk = chain_split_keys [OF ch p r(7,8)]
  have "map_of (entries n) key = map_of (entries (cs ! pos)) key"
    unfolding entries_inner [OF ok] concat_map_nth [OF p, of entries] kp
    using sk by (intro map_of_middle) auto
  then show ?case
    using r(2,4,5) evs unfolding r(1) by (simp add: get_loop.simps)
qed

lemma put_loop_spec:
  assumes cap: "3 \<le> cap" "cap \<le> 65535"
  shows "subtree_ok cap (Suc h) lo hi n \<Longrightarrow> key_count n < cap \<Longrightarrow>
         above_lo lo key \<Longrightarrow> below_hi hi key \<Longrightarrow>
         \<exists>n'. put_loop cap n key val = Inr n' \<and> subtree_ok cap (Suc h) lo hi n' \<and>
              entries n' = upd key val (entries n)"
proof (induction h arbitrary: lo hi n)
  case 0
  from route_spec [OF 0(1,3,4)]
  obtain l kc ks cs pos f where r: "n = InnerNode l kc ks cs" "l = Suc 0" "pos < kc"
    "inner_lower_bound n key = Inr (pos, f)" "rd cs pos = Inr (cs ! pos)"
    "subtree_ok cap 0 (lob lo (seps n) pos) (hib hi (seps n) pos) (cs ! pos)"
    "above_lo (lob lo (seps n) pos) key" "below_hi (hib hi (seps n) pos) key"
    by blast
  let ?clo = "lob lo (seps n) pos" and ?chi = "hib hi (seps n) pos" and ?child = "cs ! pos"
  have inv: "subtree_ok cap (Suc 0) lo hi (InnerNode l kc ks cs)" using 0(1) unfolding r(1) .
  have room: "kc < cap" using 0(2) r(1) by simp
  have lok: "leaf_ok cap ?child" using r(6) by simp
  then obtain cl ckc cks cvs where child: "?child = LeafNode cl ckc cks cvs"
    by (cases ?child) auto
  have ckc: "ckc \<le> cap" "key_count ?child = ckc" using lok child by auto
  note rs = r(4,5) [unfolded r(1)] r(2)
  show ?case
  proof (cases "cap \<le> ckc")
    case False
    then have "key \<in> set (leaf_keys ?child) \<or> key_count ?child < cap" using ckc by simp
    from ok_leaf_insert [OF r(6,7,8) this cap(2), of val]
    obtain c' where c': "leaf_insert ?child key val = Inr c'"
      "subtree_ok cap 0 ?clo ?chi c'" "entries c' = upd key val (entries ?child)"
      by blast
    note rc = ok_replace_child [OF inv r(3) r(7,8) [unfolded r(1)] c'(2,3) [unfolded r(1)]]
    have "put_loop cap (InnerNode l kc ks cs) key val = Inr (InnerNode l kc ks (cs[pos := c']))"
      using rs c'(1) False child by (simp add: put_loop.simps)
    then show ?thesis unfolding r(1) using rc by blast
  next
    case True
    then have full: "key_count ?child = cap" using ckc by simp
    from ok_leaf_split [OF r(6) full cap]
    obtain sep left right where s: "leaf_split ?child (new_leaf cap) = Inr (sep, left, right)"
      "above_lo ?clo sep" "sbelow_hi ?chi sep"
      "subtree_ok cap 0 ?clo (Some sep) left" "subtree_ok cap 0 (Some sep) ?chi right"
      "key_count left < cap" "key_count right < cap"
      "entries ?child = entries left @ entries right"
      by blast
    note hk = ok_halves_keys [OF s(4,5)]
    note uh = upd_halves [OF hk, of key val]
    show ?thesis
    proof (cases "sep < key")
      case lt: True
      have "key \<in> set (leaf_keys right) \<or> key_count right < cap" using s(7) by simp
      moreover have "above_lo (Some sep) key" using lt by simp
      ultimately obtain r' where r': "leaf_insert right key val = Inr r'"
        "subtree_ok cap 0 (Some sep) ?chi r'" "entries r' = upd key val (entries right)"
        using ok_leaf_insert [OF s(5) _ r(8) _ cap(2), of val] by blast
      have e: "entries left @ entries r' = upd key val (entries ?child)"
        using uh lt r'(3) s(8) by simp
      from ok_split_child [OF inv room r(3) cap(2) r(7,8) [unfolded r(1)]
          s(2,3,4) [unfolded r(1)] r'(2) [unfolded r(1)] e]
      obtain n' where n': "insert_split (InnerNode l kc ks (cs[pos := left])) sep r' = Inr n'"
        "subtree_ok cap (Suc 0) lo hi n'"
        "entries n' = upd key val (entries (InnerNode l kc ks cs))"
        by blast
      have "put_loop cap (InnerNode l kc ks cs) key val = Inr n'"
        using rs True child s(1) lt r'(1) n'(1) by (simp add: put_loop.simps)
      then show ?thesis unfolding r(1) using n'(2,3) by blast
    next
      case ge: False
      have "key \<in> set (leaf_keys left) \<or> key_count left < cap" using s(6) by simp
      moreover have "below_hi (Some sep) key" using ge by simp
      ultimately obtain l' where l': "leaf_insert left key val = Inr l'"
        "subtree_ok cap 0 ?clo (Some sep) l'" "entries l' = upd key val (entries left)"
        using ok_leaf_insert [OF s(4) r(7) _ _ cap(2), of val] by blast
      have e: "entries l' @ entries right = upd key val (entries ?child)"
        using uh ge l'(3) s(8) by simp
      from ok_split_child [OF inv room r(3) cap(2) r(7,8) [unfolded r(1)]
          s(2,3) [unfolded r(1)] l'(2) [unfolded r(1)] s(5) [unfolded r(1)] e]
      obtain n' where n': "insert_split (InnerNode l kc ks (cs[pos := l'])) sep right = Inr n'"
        "subtree_ok cap (Suc 0) lo hi n'"
        "entries n' = upd key val (entries (InnerNode l kc ks cs))"
        by blast
      have "put_loop cap (InnerNode l kc ks cs) key val = Inr n'"
        using rs True child s(1) ge l'(1) n'(1) by (simp add: put_loop.simps)
      then show ?thesis unfolding r(1) using n'(2,3) by blast
    qed
  qed
next
  case (Suc h)
  from route_spec [OF Suc.prems(1,3,4)]
  obtain l kc ks cs pos f where r: "n = InnerNode l kc ks cs" "l = Suc (Suc h)" "pos < kc"
    "inner_lower_bound n key = Inr (pos, f)" "rd cs pos = Inr (cs ! pos)"
    "subtree_ok cap (Suc h) (lob lo (seps n) pos) (hib hi (seps n) pos) (cs ! pos)"
    "above_lo (lob lo (seps n) pos) key" "below_hi (hib hi (seps n) pos) key"
    by blast
  let ?clo = "lob lo (seps n) pos" and ?chi = "hib hi (seps n) pos" and ?child = "cs ! pos"
  have inv: "subtree_ok cap (Suc (Suc h)) lo hi (InnerNode l kc ks cs)"
    using Suc.prems(1) unfolding r(1) .
  have room: "kc < cap" using Suc.prems(2) r(1) by simp
  have iok: "inner_ok cap ?child" using r(6) by simp
  then obtain cl ckc cks ccs where child: "?child = InnerNode cl ckc cks ccs"
    by (cases ?child) auto
  have ckc: "ckc \<le> cap" "key_count ?child = ckc" using iok child by auto
  note rs = r(4,5) [unfolded r(1)] r(2)
  show ?case
  proof (cases "cap \<le> ckc")
    case False
    then have "key_count ?child < cap" using ckc by simp
    from Suc.IH [OF r(6) this r(7,8)]
    obtain c' where c': "put_loop cap ?child key val = Inr c'"
      "subtree_ok cap (Suc h) ?clo ?chi c'" "entries c' = upd key val (entries ?child)"
      by blast
    note rc = ok_replace_child [OF inv r(3) r(7,8) [unfolded r(1)] c'(2,3) [unfolded r(1)]]
    have "put_loop cap (InnerNode l kc ks cs) key val = Inr (InnerNode l kc ks (cs[pos := c']))"
      using rs c'(1) False child by (simp add: put_loop.simps)
    then show ?thesis unfolding r(1) using rc by blast
  next
    case True
    then have full: "2 \<le> key_count ?child" "key_count ?child = cap" using ckc cap by auto
    from ok_inner_split [OF r(6) full(1) cap(2)]
    obtain sep left right0 where s: "inner_split ?child (new_inner cap) = Inr (sep, left, right0)"
      "above_lo ?clo sep" "sbelow_hi ?chi sep"
      "subtree_ok cap (Suc h) ?clo (Some sep) left"
      "subtree_ok cap (Suc h) (Some sep) ?chi (set_level right0 (level left))"
      "key_count left < key_count ?child"
      "key_count (set_level right0 (level left)) < key_count ?child"
      "entries ?child = entries left @ entries (set_level right0 (level left))"
      by blast
    let ?right = "set_level right0 (level left)"
    note hk = ok_halves_keys [OF s(4,5)]
    note uh = upd_halves [OF hk, of key val]
    show ?thesis
    proof (cases "sep < key")
      case lt: True
      have "key_count ?right < cap" using s(7) full(2) by simp
      moreover have "above_lo (Some sep) key" using lt by simp
      ultimately obtain r' where r': "put_loop cap ?right key val = Inr r'"
        "subtree_ok cap (Suc h) (Some sep) ?chi r'" "entries r' = upd key val (entries ?right)"
        using Suc.IH [OF s(5) _ _ r(8)] by blast
      have e: "entries left @ entries r' = upd key val (entries ?child)"
        using uh lt r'(3) s(8) by simp
      from ok_split_child [OF inv room r(3) cap(2) r(7,8) [unfolded r(1)]
          s(2,3,4) [unfolded r(1)] r'(2) [unfolded r(1)] e]
      obtain n' where n': "insert_split (InnerNode l kc ks (cs[pos := left])) sep r' = Inr n'"
        "subtree_ok cap (Suc (Suc h)) lo hi n'"
        "entries n' = upd key val (entries (InnerNode l kc ks cs))"
        by blast
      have "put_loop cap (InnerNode l kc ks cs) key val = Inr n'"
        using rs True child s(1) lt r'(1) n'(1) by (simp add: put_loop.simps Let_def)
      then show ?thesis unfolding r(1) using n'(2,3) by blast
    next
      case ge: False
      have "key_count left < cap" using s(6) full(2) by simp
      moreover have "below_hi (Some sep) key" using ge by simp
      ultimately obtain l' where l': "put_loop cap left key val = Inr l'"
        "subtree_ok cap (Suc h) ?clo (Some sep) l'" "entries l' = upd key val (entries left)"
        using Suc.IH [OF s(4) _ r(7)] by blast
      have e: "entries l' @ entries ?right = upd key val (entries ?child)"
        using uh ge l'(3) s(8) by simp
      from ok_split_child [OF inv room r(3) cap(2) r(7,8) [unfolded r(1)]
          s(2,3) [unfolded r(1)] l'(2) [unfolded r(1)] s(5) [unfolded r(1)] e]
      obtain n' where n': "insert_split (InnerNode l kc ks (cs[pos := l'])) sep ?right = Inr n'"
        "subtree_ok cap (Suc (Suc h)) lo hi n'"
        "entries n' = upd key val (entries (InnerNode l kc ks cs))"
        by blast
      have "put_loop cap (InnerNode l kc ks cs) key val = Inr n'"
        using rs True child s(1) ge l'(1) n'(1) by (simp add: put_loop.simps Let_def)
      then show ?thesis unfolding r(1) using n'(2,3) by blast
    qed
  qed
qed

section \<open>Whole-tree operations\<close>

definition tree_level :: "('k, 'v) node \<Rightarrow> nat" where
  "tree_level t = (case t of Null \<Rightarrow> 0 | LeafNode l kc ks vs \<Rightarrow> l | InnerNode l kc ks cs \<Rightarrow> l)"

definition tree_ok :: "nat \<Rightarrow> ('k::linorder, 'v) node \<Rightarrow> bool" where
  "tree_ok cap t = (case t of Null \<Rightarrow> True | _ \<Rightarrow> subtree_ok cap (tree_level t) None None t)"

lemma subtree_ok_level: "subtree_ok cap h lo hi n \<Longrightarrow> tree_level n = h \<and> n \<noteq> Null"
  by (cases h; cases n) (auto simp: tree_level_def)

lemma tree_okI: "subtree_ok cap h None None n \<Longrightarrow> tree_ok cap n"
  using subtree_ok_level [of cap h None None n] by (cases n) (auto simp: tree_ok_def)

lemma new_root_ok:
  assumes cap: "2 \<le> cap" "cap \<le> 65535" and h: "Suc h < 65536"
    and l: "subtree_ok cap h None (Some sep) left" and r: "subtree_ok cap h (Some sep) None right"
  shows "\<exists>n'. new_root cap (Suc h) left sep right = Inr n' \<and>
           subtree_ok cap (Suc h) None None n' \<and> entries n' = entries left @ entries right"
proof -
  from new_root_spec [OF cap, of "Suc h" left sep right]
  obtain n' where n': "new_root cap (Suc h) left sep right = Inr n'" "inner_ok cap n'"
    "level n' = Suc h" "seps n' = [sep]" "kids n' = [left, right]" by blast
  have "subtree_ok cap (Suc h) None None n'" using n'(2-5) h l r by simp
  moreover have "entries n' = entries left @ entries right"
    using entries_inner [OF n'(2)] n'(5) by simp
  ultimately show ?thesis using n'(1) by blast
qed

lemma put_spec:
  fixes t :: "('k::linorder, 'v) node"
  assumes cap: "3 \<le> cap" "cap \<le> 65535" and ok: "tree_ok cap t" and lv: "tree_level t < 65535"
  shows "\<exists>t'. put cap t key val = Inr t' \<and> t' \<noteq> Null \<and> tree_ok cap t' \<and>
           entries t' = upd key val (entries t) \<and> tree_level t' \<le> Suc (tree_level t)"
proof (cases t)
  case Null
  let ?new = "new_leaf cap :: ('k, 'v) node"
  have lo: "leaf_ok cap ?new" by (simp add: new_leaf_def initd_def)
  have e: "leaf_keys ?new = []" "key_count ?new = 0" "leaf_entries ?new = []"
    by (simp_all add: new_leaf_def leaf_entries_def)
  have "sorted_wrt (<) (leaf_keys ?new)"
    "key \<in> set (leaf_keys ?new) \<or> key_count ?new < cap"
    using cap e by auto
  from leaf_insert_spec [OF lo this cap(2), of val]
  obtain n' where n': "leaf_insert ?new key val = Inr n'" "leaf_ok cap n'"
    "leaf_entries n' = [(key, val)]" "key_count n' = 1"
    unfolding e by auto
  have "leaf_keys n' = [key]" using map_fst_leaf_entries [OF n'(2)] n'(3) by simp
  then have s: "subtree_ok cap 0 None None n'" using n'(2,4) by simp
  have "entries n' = upd key val (entries t)"
    using entries_leaf [OF n'(2)] n'(3) Null by simp
  then show ?thesis
    using n'(1) s Null subtree_ok_level [OF s] tree_okI [OF s] by (simp add: put_def)
next
  case (LeafNode l kc ks vs)
  have inv: "subtree_ok cap l None None t" using ok LeafNode by (simp add: tree_ok_def tree_level_def)
  have l0: "l = 0" using inv LeafNode by (cases l) auto
  have inv0: "subtree_ok cap 0 None None t" using inv l0 by simp
  have kc: "kc \<le> cap" "key_count t = kc" using inv0 LeafNode by auto
  show ?thesis
  proof (cases "cap \<le> kc")
    case False
    then have "key \<in> set (leaf_keys t) \<or> key_count t < cap" using kc by simp
    from ok_leaf_insert [OF inv0 _ _ this cap(2), of val]
    obtain n' where n': "leaf_insert t key val = Inr n'" "subtree_ok cap 0 None None n'"
      "entries n' = upd key val (entries t)" by auto
    have "put cap t key val = Inr n'" using n'(1) False l0 LeafNode by (simp add: put_def)
    then show ?thesis
      using n'(2,3) subtree_ok_level [OF n'(2)] tree_okI [OF n'(2)] by simp
  next
    case True
    then have full: "key_count t = cap" using kc by simp
    from ok_leaf_split [OF inv0 full cap]
    obtain sep left right where s: "leaf_split t (new_leaf cap) = Inr (sep, left, right)"
      "subtree_ok cap 0 None (Some sep) left" "subtree_ok cap 0 (Some sep) None right"
      "key_count left < cap" "key_count right < cap"
      "entries t = entries left @ entries right"
      by blast
    note uh = upd_halves [OF ok_halves_keys [OF s(2,3)], of key val]
    have c2: "2 \<le> cap" using cap by simp
    show ?thesis
    proof (cases "sep < key")
      case lt: True
      then have "above_lo (Some sep) key" "below_hi None key"
        "key \<in> set (leaf_keys right) \<or> key_count right < cap" using s(5) by auto
      from ok_leaf_insert [OF s(3) this cap(2), of val]
      obtain r' where r': "leaf_insert right key val = Inr r'"
        "subtree_ok cap 0 (Some sep) None r'" "entries r' = upd key val (entries right)"
        by blast
      from new_root_ok [OF c2 cap(2) _ s(2) r'(2)]
      obtain n' where n': "new_root cap (Suc 0) left sep r' = Inr n'"
        "subtree_ok cap (Suc 0) None None n'" "entries n' = entries left @ entries r'"
        by auto
      have "put cap t key val = Inr n'"
        using s(1) lt r'(1) n'(1) True l0 LeafNode by (simp add: put_def)
      moreover have "entries n' = upd key val (entries t)"
        using n'(3) r'(3) uh lt s(6) by simp
      ultimately show ?thesis
        using n'(2) subtree_ok_level [OF n'(2)] tree_okI [OF n'(2)] l0 LeafNode
        by (simp add: tree_level_def)
    next
      case ge: False
      then have "above_lo None key" "below_hi (Some sep) key"
        "key \<in> set (leaf_keys left) \<or> key_count left < cap" using s(4) by auto
      from ok_leaf_insert [OF s(2) this cap(2), of val]
      obtain l' where l': "leaf_insert left key val = Inr l'"
        "subtree_ok cap 0 None (Some sep) l'" "entries l' = upd key val (entries left)"
        by blast
      from new_root_ok [OF c2 cap(2) _ l'(2) s(3)]
      obtain n' where n': "new_root cap (Suc 0) l' sep right = Inr n'"
        "subtree_ok cap (Suc 0) None None n'" "entries n' = entries l' @ entries right"
        by auto
      have "put cap t key val = Inr n'"
        using s(1) ge l'(1) n'(1) True l0 LeafNode by (simp add: put_def)
      moreover have "entries n' = upd key val (entries t)"
        using n'(3) l'(3) uh ge s(6) by simp
      ultimately show ?thesis
        using n'(2) subtree_ok_level [OF n'(2)] tree_okI [OF n'(2)] l0 LeafNode
        by (simp add: tree_level_def)
    qed
  qed
next
  case (InnerNode l kc ks cs)
  have inv: "subtree_ok cap l None None t" and tl: "tree_level t = l" "l < 65535"
    using ok lv InnerNode by (simp_all add: tree_ok_def tree_level_def)
  obtain h where h: "l = Suc h" using inv InnerNode by (cases l) auto
  have invh: "subtree_ok cap (Suc h) None None t" using inv h by simp
  have kc: "kc \<le> cap" "key_count t = kc" using invh InnerNode by auto
  show ?thesis
  proof (cases "cap \<le> kc")
    case False
    then have "key_count t < cap" using kc by simp
    from put_loop_spec [OF cap invh this, of key val]
    obtain n' where n': "put_loop cap t key val = Inr n'" "subtree_ok cap (Suc h) None None n'"
      "entries n' = upd key val (entries t)" by auto
    have "put cap t key val = Inr n'" using n'(1) False h InnerNode by (simp add: put_def)
    then show ?thesis
      using n'(2,3) subtree_ok_level [OF n'(2)] tree_okI [OF n'(2)] tl h by simp
  next
    case True
    then have full: "2 \<le> key_count t" "key_count t = cap" using kc cap by auto
    from ok_inner_split [OF invh full(1) cap(2)]
    obtain sep left right0 where s: "inner_split t (new_inner cap) = Inr (sep, left, right0)"
      "subtree_ok cap (Suc h) None (Some sep) left"
      "subtree_ok cap (Suc h) (Some sep) None (set_level right0 (level left))"
      "level left = Suc h"
      "key_count left < key_count t"
      "key_count (set_level right0 (level left)) < key_count t"
      "entries t = entries left @ entries (set_level right0 (level left))"
      by blast
    let ?right = "set_level right0 (level left)"
    note uh = upd_halves [OF ok_halves_keys [OF s(2,3)], of key val]
    have c2: "2 \<le> cap" using cap by simp
    have hh: "Suc (Suc h) < 65536" using tl h by simp
    have u: "u16 (int (level left) + 1) = Suc (Suc h)"
      using s(4) hh by (simp add: u16_def)
    show ?thesis
    proof (cases "sep < key")
      case lt: True
      then have "key_count ?right < cap" "above_lo (Some sep) key" "below_hi None key"
        using s(6) full(2) by auto
      from put_loop_spec [OF cap s(3) this, of val]
      obtain r' where r': "put_loop cap ?right key val = Inr r'"
        "subtree_ok cap (Suc h) (Some sep) None r'" "entries r' = upd key val (entries ?right)"
        by blast
      from new_root_ok [OF c2 cap(2) hh s(2) r'(2)]
      obtain n' where n': "new_root cap (Suc (Suc h)) left sep r' = Inr n'"
        "subtree_ok cap (Suc (Suc h)) None None n'" "entries n' = entries left @ entries r'"
        by auto
      have "put cap t key val = Inr n'"
        using s(1) lt r'(1) n'(1) True h InnerNode u by (simp add: put_def Let_def)
      moreover have "entries n' = upd key val (entries t)"
        using n'(3) r'(3) uh lt s(7) by simp
      ultimately show ?thesis
        using n'(2) subtree_ok_level [OF n'(2)] tree_okI [OF n'(2)] tl h by simp
    next
      case ge: False
      then have "key_count left < cap" "above_lo None key" "below_hi (Some sep) key"
        using s(5) full(2) by auto
      from put_loop_spec [OF cap s(2) this, of val]
      obtain l' where l': "put_loop cap left key val = Inr l'"
        "subtree_ok cap (Suc h) None (Some sep) l'" "entries l' = upd key val (entries left)"
        by blast
      from new_root_ok [OF c2 cap(2) hh l'(2) s(3)]
      obtain n' where n': "new_root cap (Suc (Suc h)) l' sep ?right = Inr n'"
        "subtree_ok cap (Suc (Suc h)) None None n'" "entries n' = entries l' @ entries ?right"
        by auto
      have "put cap t key val = Inr n'"
        using s(1) ge l'(1) n'(1) True h InnerNode u by (simp add: put_def Let_def)
      moreover have "entries n' = upd key val (entries t)"
        using n'(3) l'(3) uh ge s(7) by simp
      ultimately show ?thesis
        using n'(2) subtree_ok_level [OF n'(2)] tree_okI [OF n'(2)] tl h by simp
    qed
  qed
qed

lemma get_spec:
  assumes "tree_ok cap t"
  shows "get t key = Inr (map_of (entries t) key)"
proof (cases "t = Null")
  case True
  then show ?thesis by (simp add: get_def get_run_def)
next
  case False
  then have "subtree_ok cap (tree_level t) None None t"
    using assms by (cases t) (auto simp: tree_ok_def)
  from get_loop_spec [OF this, of key "[]"]
  obtain evs where "get_loop t key [] = Inr (evs, map_of (entries t) key)" by auto
  then show ?thesis using False by (cases t) (auto simp: get_def get_run_def)
qed

section \<open>Sequences of operations\<close>

datatype ('k, 'v) op = Get 'k | Put 'k 'v

fun run :: "nat \<Rightarrow> ('k::linorder, 'v) node \<Rightarrow> ('k, 'v) op list \<Rightarrow> error + ('k, 'v) node" where
  "run cap root [] = Inr root"
| "run cap root (Get key # ops) =
     (case get root key of Inl e \<Rightarrow> Inl e | Inr res \<Rightarrow> run cap root ops)"
| "run cap root (Put key val # ops) =
     (case put cap root key val of Inl e \<Rightarrow> Inl e | Inr root' \<Rightarrow> run cap root' ops)"

fun levels_fit :: "nat \<Rightarrow> ('k::linorder, 'v) node \<Rightarrow> ('k, 'v) op list \<Rightarrow> bool" where
  "levels_fit cap root [] = True"
| "levels_fit cap root (Get key # ops) =
     (case get root key of Inl e \<Rightarrow> True | Inr res \<Rightarrow> levels_fit cap root ops)"
| "levels_fit cap root (Put key val # ops) =
     (tree_level root < 65535 \<and>
      (case put cap root key val of Inl e \<Rightarrow> True | Inr root' \<Rightarrow> levels_fit cap root' ops))"

fun contents :: "('k::linorder, 'v) op list \<Rightarrow> ('k \<times> 'v) list \<Rightarrow> ('k \<times> 'v) list" where
  "contents [] xs = xs"
| "contents (Get key # ops) xs = contents ops xs"
| "contents (Put key val # ops) xs = contents ops (upd key val xs)"

fun latest :: "('k, 'v) op list \<Rightarrow> 'k \<Rightarrow> 'v option" where
  "latest [] k = None"
| "latest (Get key # ops) k = latest ops k"
| "latest (Put key val # ops) k =
     (case latest ops k of Some v \<Rightarrow> Some v | None \<Rightarrow> if key = k then Some val else None)"

lemma map_of_contents:
  "map_of (contents ops xs) k = (case latest ops k of Some v \<Rightarrow> Some v | None \<Rightarrow> map_of xs k)"
  by (induction ops xs rule: contents.induct) (auto simp: map_of_upd split: option.splits)

lemma sorted_contents:
  "sorted_wrt (<) (map fst xs) \<Longrightarrow> sorted_wrt (<) (map fst (contents ops xs))"
  by (induction ops xs rule: contents.induct) (auto simp: sorted_upd)

lemma run_spec:
  fixes t :: "('k::linorder, 'v) node"
  assumes cap: "3 \<le> cap" "cap \<le> 65535"
  shows "tree_ok cap t \<Longrightarrow> levels_fit cap t ops \<Longrightarrow>
         \<exists>t'. run cap t ops = Inr t' \<and> tree_ok cap t' \<and> entries t' = contents ops (entries t)"
proof (induction ops arbitrary: t)
  case Nil
  then show ?case by simp
next
  case (Cons a ops)
  show ?case
  proof (cases a)
    case (Get key)
    then show ?thesis
      using Cons get_spec [OF Cons.prems(1), of key] by simp
  next
    case (Put key val)
    then have lv: "tree_level t < 65535" using Cons.prems(2) by simp
    from put_spec [OF cap Cons.prems(1) lv, of key val]
    obtain t' where t': "put cap t key val = Inr t'" "tree_ok cap t'"
      "entries t' = upd key val (entries t)" by blast
    have "levels_fit cap t' ops" using Cons.prems(2) Put t'(1) by simp
    from Cons.IH [OF t'(2) this] show ?thesis using Put t'(1,3) by simp
  qed
qed

lemma levels_fit_short:
  fixes t :: "('k::linorder, 'v) node"
  assumes cap: "3 \<le> cap" "cap \<le> 65535"
  shows "tree_ok cap t \<Longrightarrow> tree_level t + length ops \<le> 65535 \<Longrightarrow> levels_fit cap t ops"
proof (induction ops arbitrary: t)
  case Nil
  then show ?case by simp
next
  case (Cons a ops)
  show ?case
  proof (cases a)
    case (Get key)
    have "tree_level t + length ops \<le> 65535" using Cons.prems(2) by simp
    from Cons.IH [OF Cons.prems(1) this] show ?thesis
      using Get get_spec [OF Cons.prems(1), of key] by simp
  next
    case (Put key val)
    have lv: "tree_level t < 65535" using Cons.prems(2) by simp
    from put_spec [OF cap Cons.prems(1) lv, of key val]
    obtain t' where t': "put cap t key val = Inr t'" "tree_ok cap t'"
      "tree_level t' \<le> Suc (tree_level t)" by blast
    have "tree_level t' + length ops \<le> 65535" using Cons.prems(2) t'(3) by simp
    from Cons.IH [OF t'(2) this] show ?thesis using Put t'(1) lv by simp
  qed
qed

section \<open>The nodes of a tree\<close>

text \<open>
  \<open>nodes t\<close> lists the node objects reachable from \<open>t\<close> through the first \<open>key_count\<close> child
  slots of every inner node. \<open>leaf_object\<close> and \<open>inner_object\<close> tell which C++ class an
  object has, whatever its \<open>level\<close> field says.
\<close>

function nodes :: "('k, 'v) node \<Rightarrow> ('k, 'v) node list" where
  "nodes Null = []"
| "nodes (LeafNode l kc ks vs) = [LeafNode l kc ks vs]"
| "nodes (InnerNode l kc ks cs) = InnerNode l kc ks cs # concat (map nodes (take kc cs))"
  by pat_completeness auto
termination
proof (relation "measure depth", goal_cases)
  case 1
  show ?case by simp
next
  case (2 l kc ks cs x)
  then have "x \<in> set cs" by (auto dest: in_set_takeD)
  then show ?case using depth_le_fold_max [of x cs 0] by (simp add: less_Suc_eq_le)
qed

fun leaf_object :: "('k, 'v) node \<Rightarrow> bool" where
  "leaf_object (LeafNode l kc ks vs) = True"
| "leaf_object Null = False"
| "leaf_object (InnerNode l kc ks cs) = False"

fun inner_object :: "('k, 'v) node \<Rightarrow> bool" where
  "inner_object (InnerNode l kc ks cs) = True"
| "inner_object Null = False"
| "inner_object (LeafNode l kc ks vs) = False"

lemma nodes_inner: "inner_ok cap n \<Longrightarrow> nodes n = n # concat (map nodes (kids n))"
  by (cases n) (auto simp: kids.simps)

lemma nodes_leaf: "leaf_ok cap n \<Longrightarrow> nodes n = [n]"
  by (cases n) auto

lemma chain_all:
  "chain P lo hi ss cs \<Longrightarrow> c \<in> set cs \<Longrightarrow> \<exists>lo' hi'. P lo' hi' c"
  by (induction P lo hi ss cs rule: chain.induct) auto

lemma subtree_nodes:
  "subtree_ok cap h lo hi n \<Longrightarrow> m \<in> set (nodes n) \<Longrightarrow>
   \<exists>h' lo' hi'. subtree_ok cap h' lo' hi' m"
proof (induction h arbitrary: lo hi n)
  case 0
  then have "m = n" using nodes_leaf [of cap n] by auto
  then show ?case using 0(1) by blast
next
  case (Suc h)
  then have ok: "inner_ok cap n" and ch: "chain (subtree_ok cap h) lo hi (seps n) (kids n)"
    by auto
  show ?case
  proof (cases "m = n")
    case True
    then show ?thesis using Suc.prems(1) by blast
  next
    case False
    then obtain c where c: "c \<in> set (kids n)" "m \<in> set (nodes c)"
      using Suc.prems(2) nodes_inner [OF ok] by auto
    from chain_all [OF ch c(1)] obtain lo' hi' where "subtree_ok cap h lo' hi' c" by blast
    from Suc.IH [OF this c(2)] show ?thesis .
  qed
qed

lemma tree_nodes:
  assumes "tree_ok cap t" "m \<in> set (nodes t)"
  shows "\<exists>h lo hi. subtree_ok cap h lo hi m"
proof -
  have "t \<noteq> Null" using assms(2) by auto
  then have "subtree_ok cap (tree_level t) None None t"
    using assms(1) by (cases t) (auto simp: tree_ok_def)
  from subtree_nodes [OF this assms(2)] show ?thesis .
qed

lemma subtree_ok_sorted:
  assumes "subtree_ok cap h lo hi m"
  shows "sorted_wrt (<) (leaf_keys m) \<and> sorted_wrt (<) (seps m)"
proof (cases h)
  case 0
  then have "leaf_ok cap m" "sorted_wrt (<) (leaf_keys m)" using assms by auto
  then show ?thesis by (cases m) (auto simp: seps.simps)
next
  case (Suc h')
  then have "inner_ok cap m" "chain (subtree_ok cap h') lo hi (seps m) (kids m)"
    using assms by auto
  then show ?thesis using chain_seps [of "subtree_ok cap h'" lo hi "seps m" "kids m"]
    by (cases m) auto
qed

lemma subtree_ok_counts:
  assumes "subtree_ok cap h lo hi m"
  shows "0 < key_count m \<and> key_count m \<le> cap \<and>
         (leaf_object m \<longrightarrow> length (leaf_keys m) = key_count m \<and> initd (key_count m) (keys m) \<and>
            initd (key_count m) (vals m)) \<and>
         (inner_object m \<longrightarrow> Suc (length (seps m)) = key_count m \<and>
            length (kids m) = key_count m \<and> initd (key_count m - 1) (keys m) \<and>
            Null \<notin> set (kids m))"
proof (cases h)
  case 0
  then have "leaf_ok cap m" "0 < key_count m" using assms by auto
  then show ?thesis by (cases m) auto
next
  case (Suc h')
  then have ok: "inner_ok cap m" and ch: "chain (subtree_ok cap h') lo hi (seps m) (kids m)"
    using assms by auto
  have "Null \<notin> set (kids m)"
  proof
    assume "Null \<in> set (kids m)"
    from chain_all [OF ch this] show False by (cases h') auto
  qed
  then show ?thesis using ok inner_ok_lengths [OF ok] by (cases m) auto
qed

lemma subtree_ok_levels:
  assumes "subtree_ok cap h lo hi m"
  shows "(leaf_object m \<longleftrightarrow> level m = 0) \<and> (inner_object m \<longleftrightarrow> 0 < level m) \<and>
         (\<forall>c\<in>set (kids m). (leaf_object c \<or> inner_object c) \<and> Suc (level c) = level m)"
proof (cases h)
  case 0
  then have "leaf_ok cap m" using assms by auto
  then show ?thesis by (cases m) (auto simp: kids.simps)
next
  case (Suc h')
  then have ok: "inner_ok cap m" and ch: "chain (subtree_ok cap h') lo hi (seps m) (kids m)"
    and lv: "level m = Suc h'"
    using assms by auto
  have "\<forall>c\<in>set (kids m). (leaf_object c \<or> inner_object c) \<and> level c = h'"
  proof
    fix c assume "c \<in> set (kids m)"
    from chain_all [OF ch this] obtain lo' hi' where "subtree_ok cap h' lo' hi' c" by blast
    then show "(leaf_object c \<or> inner_object c) \<and> level c = h'"
      using subtree_ok_level [of cap h' lo' hi' c] by (cases c) (auto simp: tree_level_def)
  qed
  then show ?thesis using ok lv by (cases m) auto
qed

section \<open>Reachable trees and evaluation\<close>

text \<open>
  The lemmas \<open>eval_simps\<close> let the simplifier run the operations on concrete trees.
  A fresh tree cannot exhaust the 16-bit level field within 65535 operations, and every tree
  reached from the fresh one within these bounds satisfies the invariant.
\<close>

lemma replicate_numeral: "replicate (numeral k) x = x # replicate (pred_numeral k) x"
  by (simp add: numeral_eq_Suc)

lemma list_update_numeral: "(x # xs)[numeral k := y] = x # xs[pred_numeral k := y]"
  by (simp add: numeral_eq_Suc)

lemma shift_leaf_numeral:
  "shift_leaf index (numeral k) ks vs =
     (if index < numeral k then
        (case rd ks (pred_numeral k) of Inl e \<Rightarrow> Inl e | Inr x \<Rightarrow>
        (case wr ks (numeral k) x of Inl e \<Rightarrow> Inl e | Inr ks' \<Rightarrow>
        (case rd vs (pred_numeral k) of Inl e \<Rightarrow> Inl e | Inr v \<Rightarrow>
        (case wr vs (numeral k) v of Inl e \<Rightarrow> Inl e | Inr vs' \<Rightarrow>
         shift_leaf index (pred_numeral k) ks' vs'))))
      else Inr (ks, vs))"
  unfolding numeral_eq_Suc by (rule shift_leaf.simps)

lemma shift_inner_numeral:
  "shift_inner index (numeral k) ks cs =
     (if index < numeral k then
        (case rd ks (pred_numeral k) of Inl e \<Rightarrow> Inl e | Inr x \<Rightarrow>
        (case wr ks (numeral k) x of Inl e \<Rightarrow> Inl e | Inr ks' \<Rightarrow>
        (case rd cs (numeral k) of Inl e \<Rightarrow> Inl e | Inr c \<Rightarrow>
        (case wr cs (numeral k + 1) c of Inl e \<Rightarrow> Inl e | Inr cs' \<Rightarrow>
         shift_inner index (pred_numeral k) ks' cs'))))
      else Inr (ks, cs))"
  unfolding numeral_eq_Suc by (rule shift_inner.simps)

lemmas eval_simps = put_def put_loop.simps leaf_insert.simps leaf_split.simps inner_split.simps
  insert_split.simps inner_lower_bound.simps leaf_lower_bound.simps bsearch.simps new_root_def
  new_leaf_def new_inner_def rd_def wr_def rd_init_def copy_range_def u16_def sdiv2_def Let_def
  get_def get_run_def get_loop.simps drop_bit_eq_div replicate_numeral list_update_numeral
  shift_leaf_numeral shift_inner_numeral

lemmas inv_simps = tree_ok_def tree_level_def initd_def seps.simps kids.simps

lemma levels_fit_fresh:
  fixes ops :: "('k::linorder, 'v) op list"
  assumes "3 \<le> cap" "cap \<le> 65535" "length ops \<le> 65535"
  shows "levels_fit cap Null ops"
proof -
  have "tree_ok cap (Null :: ('k, 'v) node)" by (simp add: tree_ok_def)
  moreover have "tree_level (Null :: ('k, 'v) node) + length ops \<le> 65535"
    using assms(3) by (simp add: tree_level_def)
  ultimately show ?thesis by (rule levels_fit_short [OF assms(1,2)])
qed

lemma reach:
  fixes ops :: "('k::linorder, 'v) op list"
  assumes "3 \<le> cap" "cap \<le> 65535" "levels_fit cap Null ops"
  shows "\<exists>t. run cap Null ops = Inr t \<and> tree_ok cap t \<and> entries t = contents ops []"
proof -
  have "tree_ok cap (Null :: ('k, 'v) node)" by (simp add: tree_ok_def)
  from run_spec [OF assms(1,2) this assms(3)] show ?thesis by simp
qed

section \<open>Keys put in increasing order\<close>

text \<open>
  \<open>puts_of kvs\<close> is the sequence of \<^verbatim>\<open>put\<close> calls for the pairs of \<open>kvs\<close>. While the root
  leaf has room, puts in increasing key order append to it.
\<close>

definition puts_of :: "('k \<times> 'v) list \<Rightarrow> ('k, 'v) op list" where
  "puts_of kvs = map (\<lambda>(k, v). Put k v) kvs"

lemma run_append:
  "run cap t (ops @ ops') =
     (case run cap t ops of Inl e \<Rightarrow> Inl e | Inr t' \<Rightarrow> run cap t' ops')"
  by (induction cap t ops rule: run.induct) (auto split: sum.splits)

lemma leaf_insert_small:
  assumes ok: "leaf_ok cap n" and srt: "sorted_wrt (<) (leaf_keys n)"
    and new: "key \<notin> set (leaf_keys n)" and room: "key_count n < cap" "key_count n < 65535"
  shows "\<exists>n'. leaf_insert n key val = Inr n' \<and> leaf_ok cap n' \<and>
           leaf_entries n' = upd key val (leaf_entries n) \<and> key_count n' = Suc (key_count n)"
proof -
  obtain l kc ks vs where n: "n = LeafNode l kc ks vs"
    using ok by (cases n) auto
  let ?xs = "map the (take kc ks)" and ?ys = "map the (take kc vs)"
  have len: "length ?xs = kc" "length ?ys = kc" using ok n by auto
  have srt': "sorted_wrt (<) ?xs" and new': "key \<notin> set ?xs" and room': "kc < cap" "kc < 65535"
    using srt new room n by simp_all
  note uz = upd_zip [OF srt', of ?ys key val]
  from leaf_insert_new [OF ok [unfolded n] srt' new' room'(1), of val]
  obtain ks' vs' where r: "leaf_insert n key val = Inr (LeafNode l (u16 (int kc + 1)) ks' vs')"
    "length ks' = cap" "length vs' = cap" "initd (Suc kc) ks'" "initd (Suc kc) vs'"
    "map the (take (Suc kc) ks') = ins_at (rank key ?xs) key ?xs"
    "map the (take (Suc kc) vs') = ins_at (rank key ?xs) val ?ys"
    using n by auto
  have u: "u16 (int kc + 1) = Suc kc" using room'(2) by (rule u16_Suc)
  let ?n' = "LeafNode l (Suc kc) ks' vs'"
  have 1: "leaf_insert n key val = Inr ?n'" using r(1) u by simp
  have 2: "leaf_ok cap ?n'" using r(2-5) room' ok n by simp
  have 3: "leaf_entries ?n' = upd key val (leaf_entries n)"
    using r(6,7) uz new' len n by (simp add: leaf_entries_def)
  have 4: "key_count ?n' = Suc (key_count n)" using n by simp
  show ?thesis using 1 2 3 4 by blast
qed

lemma upd_greatest:
  "\<forall>a\<in>fst ` set xs. a < k \<Longrightarrow> upd k v xs = xs @ [(k, v)]"
  using upd_append_left [of xs k v "[]"] by simp

lemma put_leaf_root:
  assumes "leaf_ok cap t" "key_count t < cap"
  shows "put cap t key val = leaf_insert t key val"
  using assms by (cases t) (auto simp: put_def)

lemma fill_leaf:
  fixes kvs :: "(('k::linorder) \<times> 'v) list"
  assumes "sorted_wrt (<) (map fst kvs)" "length kvs \<le> cap" "length kvs \<le> 65535"
  shows "\<exists>t. run cap Null (puts_of kvs) = Inr t \<and>
           (if kvs = [] then t = Null
            else leaf_ok cap t \<and> key_count t = length kvs \<and> leaf_entries t = kvs)"
  using assms
proof (induction kvs rule: rev_induct)
  case Nil
  then show ?case by (simp add: puts_of_def)
next
  case (snoc x ys)
  obtain k v where x: "x = (k, v)" by (cases x)
  have srt: "sorted_wrt (<) (map fst ys)" and gt: "\<forall>a\<in>fst ` set ys. a < k"
    using snoc.prems(1) x by (auto simp: sorted_wrt_append)
  have len: "length ys < cap" "length ys < 65535" using snoc.prems(2,3) by auto
  from snoc.IH [OF srt] len
  obtain t0 where t0: "run cap Null (puts_of ys) = Inr t0"
    "if ys = [] then t0 = Null
     else leaf_ok cap t0 \<and> key_count t0 = length ys \<and> leaf_entries t0 = ys"
    by auto
  have r: "run cap Null (puts_of (ys @ [x])) = put cap t0 k v"
    using t0(1) x by (simp add: puts_of_def run_append split: sum.splits)
  define n where "n = (if ys = [] then (new_leaf cap :: ('k, 'v) node) else t0)"
  have n: "leaf_ok cap n" "key_count n = length ys" "leaf_entries n = ys"
    using t0(2) by (auto simp: n_def new_leaf_def initd_def leaf_entries_def)
  have p: "put cap t0 k v = leaf_insert n k v"
    using t0(2) len put_leaf_root [of cap t0 k v] by (auto simp: n_def put_def)
  have keys: "leaf_keys n = map fst ys" using map_fst_leaf_entries [OF n(1)] n(3) by simp
  have "sorted_wrt (<) (leaf_keys n)" "k \<notin> set (leaf_keys n)"
    "key_count n < cap" "key_count n < 65535"
    using srt gt keys n(2) len by auto
  from leaf_insert_small [OF n(1) this, of v]
  obtain n' where n': "leaf_insert n k v = Inr n'" "leaf_ok cap n'"
    "leaf_entries n' = upd k v (leaf_entries n)" "key_count n' = Suc (key_count n)"
    by blast
  have "leaf_entries n' = ys @ [x]" using n'(3) n(3) upd_greatest [OF gt] x by simp
  then show ?case using r p n' n(2) by simp
qed

lemma bsearch_empty: "right < left \<Longrightarrow> bsearch ks key left right idx = Inr idx"
  by (subst bsearch.simps) simp

lemma new_root_exact:
  "2 \<le> cap \<Longrightarrow>
   new_root cap lvl left sep right =
     Inr (InnerNode lvl 2 ((replicate cap None)[0 := Some sep])
            ((replicate cap Null)[0 := left, 1 := right]))"
  by (simp add: new_root_def wr_def insert_split.simps inner_lower_bound.simps
        bsearch_empty u16_def)

lemma fold_max_replicate: "(max (0::nat) ^^ c) m = m"
  by (induction c) simp_all

lemma depth_new_root:
  assumes "2 \<le> cap" "leaf_object left" "leaf_object right"
  shows "depth (InnerNode lvl 2 ks ((replicate cap Null)[0 := left, 1 := right])) = 2"
proof -
  define c where "c = cap - 2"
  have c: "cap = Suc (Suc c)" using assms(1) by (simp add: c_def)
  have d: "depth left = 1" "depth right = 1"
  proof -
    show "depth left = 1" using assms(2) by (cases left) simp_all
    show "depth right = 1" using assms(3) by (cases right) simp_all
  qed
  show ?thesis using d by (simp add: c fold_max_replicate)
qed

section \<open>The 16-bit key count\<close>

text \<open>
  \<open>ascending n\<close> pairs each of the keys \<open>0, \<dots>, n - 1\<close> with itself, in increasing order.
  \<open>get_after\<close> and \<open>depth_after\<close> run a sequence on the fresh tree and then look a key up,
  or measure the depth. With \<^verbatim>\<open>kCapacity = 65536\<close> the \<^verbatim>\<open>uint16_t key_count\<close> of the root
  leaf never reaches the capacity: the 65536th put wraps it to 0.
\<close>

definition ascending :: "nat \<Rightarrow> (nat \<times> nat) list" where
  "ascending n = zip [0..<n] [0..<n]"

definition get_after ::
  "nat \<Rightarrow> ('k::linorder, 'v) op list \<Rightarrow> 'k \<Rightarrow> error + 'v option" where
  "get_after cap ops key = (case run cap Null ops of Inl e \<Rightarrow> Inl e | Inr t \<Rightarrow> get t key)"

definition depth_after :: "nat \<Rightarrow> ('k::linorder, 'v) op list \<Rightarrow> error + nat" where
  "depth_after cap ops = (case run cap Null ops of Inl e \<Rightarrow> Inl e | Inr t \<Rightarrow> Inr (depth t))"

lemma ascending_Suc: "ascending (Suc n) = ascending n @ [(n, n)]"
  by (simp add: ascending_def)

lemma ascending_keys: "map fst (ascending n) = [0..<n]" "length (ascending n) = n"
  by (simp_all add: ascending_def)

lemma map_of_ascending: "map_of (ascending (Suc n)) 0 = Some 0"
  by (simp add: ascending_def upt_conv_Cons del: upt_Suc)

lemma contents_append: "contents (ops @ ops') xs = contents ops' (contents ops xs)"
  by (induction ops xs rule: contents.induct) auto

lemma contents_sorted_puts:
  "sorted_wrt (<) (map fst kvs) \<Longrightarrow> contents (puts_of kvs) [] = kvs"
proof (induction kvs rule: rev_induct)
  case Nil
  then show ?case by (simp add: puts_of_def)
next
  case (snoc x ys)
  obtain k v where x: "x = (k, v)" by (cases x)
  have "sorted_wrt (<) (map fst ys)" "\<forall>a\<in>fst ` set ys. a < k"
    using snoc.prems x by (auto simp: sorted_wrt_append)
  then show ?case
    using snoc.IH x upd_greatest [of ys k v]
    by (simp add: puts_of_def contents_append)
qed

lemma latest_ascending: "latest (puts_of (ascending (Suc n))) 0 = Some 0"
proof -
  have "sorted_wrt (<) (map fst (ascending (Suc n)))"
    unfolding ascending_keys by (rule sorted_wrt_upt)
  from contents_sorted_puts [OF this] map_of_contents [of "puts_of (ascending (Suc n))" "[]" 0]
  show ?thesis using map_of_ascending [of n] by (simp split: option.splits)
qed

lemma count_wrap:
  assumes n: "n = 65535" and cap: "cap = Suc n"
  shows "\<exists>t. run cap Null (puts_of (ascending (Suc (Suc n)))) = Inr t \<and> leaf_ok cap t \<and>
           key_count t = 1 \<and> leaf_entries t = [(Suc n, Suc n)]"
proof -
  have srt: "sorted_wrt (<) (map fst (ascending n))"
    unfolding ascending_keys by (rule sorted_wrt_upt)
  have ne: "ascending n \<noteq> []" using ascending_keys(2) [of n] n by auto
  from fill_leaf [OF srt, of cap] ne ascending_keys(2) [of n] n cap
  obtain t0 where t0: "run cap Null (puts_of (ascending n)) = Inr t0" "leaf_ok cap t0"
    "key_count t0 = n" "leaf_entries t0 = ascending n"
    by auto
  obtain l kc ks vs where c0: "t0 = LeafNode l kc ks vs" using t0(2) by (cases t0) auto
  have l0: "l = 0" "kc = n" using t0(2,3) c0 by auto
  have keys0: "map the (take kc ks) = [0..<n]"
    using map_fst_leaf_entries [OF t0(2)] t0(4) c0 ascending_keys(1) by simp
  have "sorted_wrt (<) (map the (take kc ks))" "n \<notin> set (map the (take kc ks))" "kc < cap"
    unfolding keys0 using l0 cap by auto
  from leaf_insert_new [OF t0(2) [unfolded c0] this, of n]
  obtain ks' vs' where i1: "leaf_insert t0 n n = Inr (LeafNode l (u16 (int kc + 1)) ks' vs')"
    "length ks' = cap" "length vs' = cap"
    using c0 by auto
  have u: "u16 (int kc + 1) = 0" using l0 n by (simp add: u16_def)
  let ?t1 = "LeafNode 0 0 ks' vs'"
  have p1: "put cap t0 n n = Inr ?t1"
    using put_leaf_root [OF t0(2), of n n] t0(3) cap i1(1) u l0 by simp
  have ok1: "leaf_ok cap ?t1" using i1(2,3) by (simp add: initd_def)
  have "sorted_wrt (<) (leaf_keys ?t1)" "Suc n \<notin> set (leaf_keys ?t1)"
    "key_count ?t1 < cap" "key_count ?t1 < 65535"
    using cap by simp_all
  from leaf_insert_small [OF ok1 this, of "Suc n"]
  obtain t2 where t2: "leaf_insert ?t1 (Suc n) (Suc n) = Inr t2" "leaf_ok cap t2"
    "leaf_entries t2 = upd (Suc n) (Suc n) (leaf_entries ?t1)" "key_count t2 = Suc (key_count ?t1)"
    by blast
  have p2: "put cap ?t1 (Suc n) (Suc n) = Inr t2"
    using put_leaf_root [OF ok1, of "Suc n" "Suc n"] cap t2(1) by simp
  have "run cap Null (puts_of (ascending (Suc (Suc n)))) = Inr t2"
    using t0(1) p1 p2 by (simp add: ascending_Suc puts_of_def run_append)
  moreover have "leaf_entries t2 = [(Suc n, Suc n)]" "key_count t2 = 1"
    using t2(3,4) by (simp_all add: leaf_entries_def)
  ultimately show ?thesis using t2(2) by blast
qed

lemma count_wrap_get:
  assumes n: "n = 65535" and cap: "cap = Suc n"
  shows "get_after cap (puts_of (ascending (Suc (Suc n)))) 0 = Inr None"
    and "depth_after cap (puts_of (ascending (Suc (Suc n)))) = Inr 1"
proof -
  from count_wrap [OF assms]
  obtain t where t: "run cap Null (puts_of (ascending (Suc (Suc n)))) = Inr t" "leaf_ok cap t"
    "key_count t = 1" "leaf_entries t = [(Suc n, Suc n)]" by blast
  have "leaf_keys t = [Suc n]" using map_fst_leaf_entries [OF t(2)] t(4) by simp
  then have "subtree_ok cap 0 None None t" using t(2,3) by simp
  from get_spec [OF tree_okI [OF this], of 0] entries_leaf [OF t(2)] t(4)
  have "get t 0 = Inr None" by simp
  then show "get_after cap (puts_of (ascending (Suc (Suc n)))) 0 = Inr None"
    using t(1) by (simp add: get_after_def)
  have "depth t = 1" using t(2) by (cases t) auto
  then show "depth_after cap (puts_of (ascending (Suc (Suc n)))) = Inr 1"
    using t(1) by (simp add: depth_after_def)
qed

section \<open>Two puts of one key\<close>

lemma levels_fit_append:
  "levels_fit cap t (ops @ ops') =
     (levels_fit cap t ops \<and>
      (case run cap t ops of Inl e \<Rightarrow> True | Inr t' \<Rightarrow> levels_fit cap t' ops'))"
  by (induction cap t ops rule: run.induct) (auto split: sum.splits)

lemma count_distinct: "distinct xs \<Longrightarrow> x \<in> set xs \<Longrightarrow> count_list xs x = 1"
  by (induction xs) auto

lemma tree_entries_sorted:
  assumes "tree_ok cap t"
  shows "sorted_wrt (<) (map fst (entries t))"
proof (cases "t = Null")
  case True
  then show ?thesis by simp
next
  case False
  then have "subtree_ok cap (tree_level t) None None t"
    using assms by (cases t) (auto simp: tree_ok_def)
  from ok_entries [OF this] show ?thesis by simp
qed

section \<open>Separators are stored keys\<close>

text \<open>
  A leaf split returns the last key it keeps in the left leaf, and later splits of that leaf or
  of the inner nodes above it keep the key below the separator: the upper bound of a subtree
  is always one of its stored keys (the conjunct \<open>tight\<close> of the invariant).
\<close>

lemma chain_nonempty: "chain P lo hi ss cs \<Longrightarrow> cs \<noteq> []"
  by (induction P lo hi ss cs rule: chain.induct) auto

lemma chain_last: "chain P lo hi ss cs \<Longrightarrow> \<exists>lo'. P lo' hi (last cs)"
proof (induction P lo hi ss cs rule: chain.induct)
  case (2 P lo hi s ss c cs)
  then have "chain P (Some s) hi ss cs" by simp
  then show ?case using 2 chain_nonempty [of P "Some s" hi ss cs] by simp
qed auto

lemma bound_stored: "subtree_ok cap h lo (Some s) n \<Longrightarrow> s \<in> fst ` set (entries n)"
proof (induction h arbitrary: lo n)
  case 0
  then show ?case
    using entries_leaf [of cap n] map_fst_leaf_entries [of cap n]
    by (metis list.set_map subtree_ok.simps(1) tight_simps(2))
next
  case (Suc h)
  then have ok: "inner_ok cap n" and ch: "chain (subtree_ok cap h) lo (Some s) (seps n) (kids n)"
    by auto
  from chain_last [OF ch] obtain lo' where "subtree_ok cap h lo' (Some s) (last (kids n))"
    by blast
  from Suc.IH [OF this] have "s \<in> fst ` set (entries (last (kids n)))" .
  moreover have "last (kids n) \<in> set (kids n)" using chain_nonempty [OF ch] by simp
  ultimately show ?case using entries_inner [OF ok] by auto
qed

lemma sep_stored:
  assumes "subtree_ok cap h lo hi m" "i < length (seps m)"
  shows "seps m ! i \<in> fst ` set (entries (kids m ! i))"
proof (cases h)
  case 0
  then have "leaf_ok cap m" using assms(1) by simp
  then show ?thesis using assms(2) by (cases m) (auto simp: seps.simps)
next
  case (Suc h')
  then have ch: "chain (subtree_ok cap h') lo hi (seps m) (kids m)" using assms(1) by simp
  have "i < length (kids m)" using chain_length [OF ch] assms(2) by simp
  from chain_nth [OF ch this] assms(2)
  have "subtree_ok cap h' (lob lo (seps m) i) (Some (seps m ! i)) (kids m ! i)"
    by (simp add: hib_def)
  then show ?thesis by (rule bound_stored)
qed



section \<open>Keys below every stored key\<close>

text \<open>
  \<open>full_left cap h n\<close>: the node \<open>n\<close> of height \<open>h\<close> and every node below it on the path through
  \<^verbatim>\<open>children[0]\<close> has \<^verbatim>\<open>key_count = cap\<close>. At capacity 3 a put of a key below every stored key
  splits each of these nodes on its way down and fills the kept left half again, so the
  node it started from gains one child and the path stays full.
\<close>

fun full_left :: "nat \<Rightarrow> nat \<Rightarrow> ('k, 'v) node \<Rightarrow> bool" where
  "full_left cap 0 n = (key_count n = cap)"
| "full_left cap (Suc h) n = (key_count n = cap \<and> full_left cap h (kids n ! 0))"

lemma kid_entries:
  assumes "inner_ok cap n" "i < key_count n"
  shows "set (entries (kids n ! i)) \<subseteq> set (entries n)"
proof -
  have "kids n ! i \<in> set (kids n)" using inner_ok_lengths [OF assms(1)] assms(2) by simp
  then show ?thesis using entries_inner [OF assms(1)] by auto
qed

lemma seps_stored:
  assumes "subtree_ok cap (Suc h) lo hi n"
  shows "set (seps n) \<subseteq> fst ` set (entries n)"
proof
  fix s assume "s \<in> set (seps n)"
  then obtain i where i: "i < length (seps n)" "s = seps n ! i" by (auto simp: in_set_conv_nth)
  have ok: "inner_ok cap n" using assms by simp
  have "i < key_count n" using inner_ok_lengths [OF ok] i(1) by simp
  from kid_entries [OF ok this] sep_stored [OF assms i(1)] i(2)
  show "s \<in> fst ` set (entries n)" by auto
qed

lemma route_left:
  assumes inv: "subtree_ok cap (Suc h) lo hi n" and two: "2 \<le> key_count n"
    and small: "\<forall>k\<in>fst ` set (entries n). key < k"
  shows "inner_lower_bound n key = Inr (0, True)"
proof -
  have ok: "inner_ok cap n" and ch: "chain (subtree_ok cap h) lo hi (seps n) (kids n)"
    using inv by auto
  have srt: "sorted_wrt (<) (seps n)" using chain_seps [OF ch] by simp
  have ne: "0 < length (seps n)" using inner_ok_lengths [OF ok] two by (cases "seps n") auto
  then have "seps n ! 0 \<in> set (seps n)" by simp
  then have "key < seps n ! 0" using seps_stored [OF inv] small by blast
  then have "rank key (seps n) = 0" using ne by (intro rank_eqI [OF srt]) auto
  then show ?thesis using inner_lower_bound_spec [OF ok srt, of key] ne by simp
qed

lemma below_small:
  assumes inv: "subtree_ok cap h lo hi n" and small: "\<forall>k\<in>fst ` set (entries n). key < k"
  shows "below_hi hi key"
proof (cases hi)
  case None
  then show ?thesis by simp
next
  case (Some s)
  then have "s \<in> fst ` set (entries n)" using bound_stored inv by blast
  then show ?thesis using small Some by auto
qed

lemma ins_at_first: "xs \<noteq> [] \<Longrightarrow> ins_at (Suc i) x xs ! 0 = xs ! 0"
  by (cases xs) (simp_all add: ins_at_def)

lemma put_loop_left:
  "subtree_ok 3 (Suc h) lo hi n \<Longrightarrow> key_count n = 2 \<Longrightarrow>
   \<forall>k\<in>fst ` set (entries n). key < k \<Longrightarrow> above_lo lo key \<Longrightarrow>
   full_left 3 h (kids n ! 0) \<Longrightarrow>
   \<exists>n'. put_loop 3 n key val = Inr n' \<and> subtree_ok 3 (Suc h) lo hi n' \<and>
        entries n' = upd key val (entries n) \<and> key_count n' = 3 \<and>
        full_left 3 h (kids n' ! 0)"
proof (induction h arbitrary: lo hi n)
  case 0
  note inv = 0(1) and small = 0(3)
  have ok: "inner_ok 3 n" and ch: "chain (subtree_ok 3 0) lo hi (seps n) (kids n)"
    and lv: "level n = Suc 0" using inv by auto
  obtain l kc ks cs where n: "n = InnerNode l kc ks cs" using ok by (cases n) auto
  have kc: "kc = 2" "l = 1" "length cs = 3" using 0(2) lv ok n by auto
  have lb: "inner_lower_bound n key = Inr (0, True)" using route_left [OF inv _ small] 0(2) by simp
  have rd: "rd cs 0 = Inr (cs ! 0)" using kc by (simp add: rd_def)
  have k0: "kids n ! 0 = cs ! 0" using n kc by (simp add: kids.simps)
  let ?child = "cs ! 0"
  have len: "length (kids n) = 2" using inner_ok_lengths [OF ok] 0(2) by simp
  from chain_nth [OF ch, of 0] len
  have cinv: "subtree_ok 3 0 lo (hib hi (seps n) 0) ?child" by (simp add: lob_def k0)
  have lok: "leaf_ok 3 ?child" and csrt: "sorted_wrt (<) (leaf_keys ?child)" using cinv by auto
  have full: "key_count ?child = 3" using 0(5) k0 by simp
  obtain cl ckc cks cvs where child: "?child = LeafNode cl ckc cks cvs"
    using lok by (cases ?child) auto
  have ckc: "ckc = 3" using full child by simp
  have sub: "set (entries ?child) \<subseteq> set (entries n)"
    using kid_entries [OF ok, of 0] 0(2) k0 by simp
  have ckeys: "\<forall>k\<in>set (leaf_keys ?child). key < k"
    using sub small entries_leaf [OF lok] map_fst_leaf_entries [OF lok]
    by (metis (no_types, lifting) image_mono list.set_map subsetD)
  have pre: "0 < key_count ?child" "(3::nat) \<le> 65535" using full by simp_all
  have d: "key_count ?child div 2 = 1" using full by simp
  from leaf_split_spec [OF lok pre]
  obtain left right where s0:
    "leaf_split ?child (new_leaf 3) = Inr (leaf_keys ?child ! (key_count ?child div 2), left, right)"
    "leaf_ok 3 left" "key_count left = Suc (key_count ?child div 2)"
    "leaf_entries left = take (Suc (key_count ?child div 2)) (leaf_entries ?child)"
    by blast
  have s: "leaf_split ?child (new_leaf 3) = Inr (leaf_keys ?child ! 1, left, right)"
    "leaf_ok 3 left" "key_count left = 2" "leaf_entries left = take 2 (leaf_entries ?child)"
    using s0 unfolding d by (simp_all add: numeral_2_eq_2)
  let ?sep = "leaf_keys ?child ! 1"
  have "length (leaf_keys ?child) = 3" using leaf_ok_lengths [OF lok] full by simp
  then have "?sep \<in> set (leaf_keys ?child)" by simp
  then have ge: "\<not> ?sep < key" using ckeys by auto
  have lk: "leaf_keys left = take 2 (leaf_keys ?child)"
    using map_fst_leaf_entries [OF s(2)] map_fst_leaf_entries [OF lok] s(4)
    by (metis take_map)
  have lsrt: "sorted_wrt (<) (leaf_keys left)" unfolding lk using csrt by (rule sorted_wrt_take)
  have new: "key \<notin> set (leaf_keys left)" unfolding lk using ckeys by (auto dest: in_set_takeD)
  from leaf_insert_spec [OF s(2) lsrt, of key val] s(3) new
  obtain left' where l': "leaf_insert left key val = Inr left'" "key_count left' = 3"
    by auto
  let ?n1 = "InnerNode l kc ks (cs[0 := left'])"
  note v = set_child_views [OF ok [unfolded n], of 0 left']
  have srt: "sorted_wrt (<) (seps ?n1)" using chain_seps [OF ch] v(2) n by simp
  from insert_split_spec [OF v(1) srt, of ?sep right] kc
  obtain n' where n': "insert_split ?n1 ?sep right = Inr n'" "key_count n' = 3"
    "kids n' = ins_at (Suc (rank ?sep (seps ?n1))) right (kids ?n1)"
    by auto
  have "kids ?n1 ! 0 = left'" "kids ?n1 \<noteq> []" using kc by (auto simp: kids.simps)
  then have first: "kids n' ! 0 = left'" using n'(3) ins_at_first by metis
  have run: "put_loop 3 n key val = Inr n'"
    unfolding n using lb [unfolded n] rd child ckc kc s(1) ge l'(1) n'(1)
    by (simp add: put_loop.simps)
  have "(3::nat) \<le> 3" "(3::nat) \<le> 65535" "key_count n < 3" using 0(2) by simp_all
  from put_loop_spec [OF this(1,2) inv this(3) 0(4) below_small [OF inv small], of val] run
  have "subtree_ok 3 (Suc 0) lo hi n'" "entries n' = upd key val (entries n)" by auto
  then show ?case using run n'(2) first l'(2) by simp
next
  case (Suc h)
  note inv = Suc.prems(1) and small = Suc.prems(3)
  have ok: "inner_ok 3 n" and ch: "chain (subtree_ok 3 (Suc h)) lo hi (seps n) (kids n)"
    and lv: "level n = Suc (Suc h)" using inv by auto
  obtain l kc ks cs where n: "n = InnerNode l kc ks cs" using ok by (cases n) auto
  have kc: "kc = 2" "l = Suc (Suc h)" "length cs = 3" using Suc.prems(2) lv ok n by auto
  have lb: "inner_lower_bound n key = Inr (0, True)"
    using route_left [OF inv _ small] Suc.prems(2) by simp
  have rd: "rd cs 0 = Inr (cs ! 0)" using kc by (simp add: rd_def)
  have k0: "kids n ! 0 = cs ! 0" using n kc by (simp add: kids.simps)
  let ?child = "cs ! 0"
  have len: "length (kids n) = 2" using inner_ok_lengths [OF ok] Suc.prems(2) by simp
  from chain_nth [OF ch, of 0] len
  have cinv: "subtree_ok 3 (Suc h) lo (hib hi (seps n) 0) ?child" by (simp add: lob_def k0)
  have iok: "inner_ok 3 ?child" using cinv by simp
  have full: "key_count ?child = 3" "full_left 3 h (kids ?child ! 0)"
    using Suc.prems(5) k0 by simp_all
  obtain cl ckc cks ccs where child: "?child = InnerNode cl ckc cks ccs"
    using iok by (cases ?child) auto
  have ckc: "ckc = 3" using full child by simp
  have sub: "set (entries ?child) \<subseteq> set (entries n)"
    using kid_entries [OF ok, of 0] Suc.prems(2) k0 by simp
  have csmall: "\<forall>k\<in>fst ` set (entries ?child). key < k" using sub small by auto
  have two: "2 \<le> key_count ?child" using full by simp
  have c3: "(3::nat) \<le> 65535" by simp
  have d: "(key_count ?child - 1) div 2 = 1" using full(1) by simp
  from ok_inner_split [OF cinv two c3]
  obtain sep left right0 where s: "inner_split ?child (new_inner 3) = Inr (sep, left, right0)"
    "subtree_ok 3 (Suc h) lo (Some sep) left"
    "entries ?child = entries left @ entries (set_level right0 (level left))"
    by blast
  from inner_split_spec [OF iok two c3]
  obtain left2 right2 where s2:
    "inner_split ?child (new_inner 3) = Inr (seps ?child ! ((key_count ?child - 1) div 2), left2, right2)"
    "key_count left2 = Suc ((key_count ?child - 1) div 2)"
    "kids left2 = take (Suc ((key_count ?child - 1) div 2)) (kids ?child)"
    by blast
  have sh: "sep = seps ?child ! 1" "key_count left = 2" "kids left = take 2 (kids ?child)"
    using s(1) s2 unfolding d by (simp_all add: numeral_2_eq_2)
  have "length (seps ?child) = 2" using inner_ok_lengths [OF iok] full(1) by simp
  then have "sep \<in> set (seps ?child)" using sh(1) by simp
  then have "key < sep" using seps_stored [OF cinv] csmall by blast
  then have ge: "\<not> sep < key" by simp
  have lsmall: "\<forall>k\<in>fst ` set (entries left). key < k" using csmall s(3) by auto
  have "length (kids ?child) = 3" using inner_ok_lengths [OF iok] full(1) by simp
  then have "kids left ! 0 = kids ?child ! 0" using sh(3) by simp
  then have lfull: "full_left 3 h (kids left ! 0)" using full(2) by simp
  from Suc.IH [OF s(2) sh(2) lsmall Suc.prems(4) lfull]
  obtain left' where l': "put_loop 3 left key val = Inr left'" "key_count left' = 3"
    "full_left 3 h (kids left' ! 0)" by blast
  let ?right = "set_level right0 (level left)"
  let ?n1 = "InnerNode l kc ks (cs[0 := left'])"
  note v = set_child_views [OF ok [unfolded n], of 0 left']
  have srt: "sorted_wrt (<) (seps ?n1)" using chain_seps [OF ch] v(2) n by simp
  from insert_split_spec [OF v(1) srt, of sep ?right] kc
  obtain n' where n': "insert_split ?n1 sep ?right = Inr n'" "key_count n' = 3"
    "kids n' = ins_at (Suc (rank sep (seps ?n1))) ?right (kids ?n1)"
    by auto
  have "kids ?n1 ! 0 = left'" "kids ?n1 \<noteq> []" using kc by (auto simp: kids.simps)
  then have first: "kids n' ! 0 = left'" using n'(3) ins_at_first by metis
  have run: "put_loop 3 n key val = Inr n'"
    unfolding n using lb [unfolded n] rd child ckc kc s(1) ge l'(1) n'(1)
    by (simp add: put_loop.simps Let_def)
  have "(3::nat) \<le> 3" "(3::nat) \<le> 65535" "key_count n < 3" using Suc.prems(2) by simp_all
  from put_loop_spec [OF this(1,2) inv this(3) Suc.prems(4) below_small [OF inv small], of val] run
  have "subtree_ok 3 (Suc (Suc h)) lo hi n'" "entries n' = upd key val (entries n)" by auto
  then show ?case using run n'(2) first l' by simp
qed

section \<open>Keys put in decreasing order\<close>

text \<open>
  \<open>descending n\<close> pairs the keys \<open>0, -1, \<dots>, -(n - 1)\<close> with \<open>0, 1, \<dots>, n - 1\<close>.
  At capacity 3 these puts raise the root level by one with every second put from the fourth
  on: after \<open>4 + 2 * j\<close> puts the root has level \<open>j + 1\<close> and two children. \<open>levels_after\<close>
  runs a sequence on the fresh tree and reports the class and level of the root and the levels
  of its children.
\<close>

definition descending :: "nat \<Rightarrow> (int \<times> nat) list" where
  "descending n = map (\<lambda>i. (- int i, i)) [0..<n]"

definition levels_after ::
  "nat \<Rightarrow> ('k::linorder, 'v) op list \<Rightarrow> error + (bool \<times> nat \<times> nat list)" where
  "levels_after cap ops =
     (case run cap Null ops of
        Inl e \<Rightarrow> Inl e
      | Inr t \<Rightarrow> Inr (inner_object t, level t, map level (kids t)))"

lemma descending_Suc: "descending (Suc n) = descending n @ [(- int n, n)]"
  by (simp add: descending_def)

lemma descending_4: "descending 4 = [(0, 0), (- 1, 1), (- 2, 2), (- 3, 3)]"
  by (simp add: descending_def upt_conv_Cons)

lemma puts_of_append: "puts_of (xs @ ys) = puts_of xs @ puts_of ys"
  by (simp add: puts_of_def)

lemma run_put:
  "run cap t (puts_of [(k, v)]) = put cap t k v"
  by (simp add: puts_of_def split: sum.splits)

lemma subtree_level: "subtree_ok cap (Suc h) lo hi n \<Longrightarrow> level n = Suc h"
  by simp

lemma put_grow:
  assumes inv: "subtree_ok 3 (Suc h) None None t" and kc: "key_count t = 2"
    and small: "\<forall>k\<in>fst ` set (entries t). key < k"
    and full: "full_left 3 h (kids t ! 0)"
  shows "\<exists>t'. put 3 t key val = Inr t' \<and> subtree_ok 3 (Suc h) None None t' \<and>
           entries t' = upd key val (entries t) \<and> key_count t' = 3 \<and>
           full_left 3 h (kids t' ! 0)"
proof -
  have ok: "inner_ok 3 t" and lv: "level t = Suc h" using inv by auto
  obtain l c ks cs where t: "t = InnerNode l c ks cs" using ok by (cases t) auto
  have "put 3 t key val = put_loop 3 t key val" using t kc lv by (simp add: put_def)
  then show ?thesis using put_loop_left [OF inv kc small _ full, of val] by simp
qed

lemma put_split_root:
  assumes inv: "subtree_ok 3 (Suc h) None None t" and kc: "key_count t = 3"
    and small: "\<forall>k\<in>fst ` set (entries t). key < k"
    and full: "full_left 3 h (kids t ! 0)"
  shows "\<exists>t' sep left right. put 3 t key val = Inr t' \<and> inner_ok 3 t' \<and>
           level t' = u16 (int (Suc h) + 1) \<and> key_count t' = 2 \<and>
           seps t' = [sep] \<and> kids t' = [left, right] \<and>
           subtree_ok 3 (Suc h) None (Some sep) left \<and>
           subtree_ok 3 (Suc h) (Some sep) None right \<and>
           key_count left = 3 \<and> full_left 3 h (kids left ! 0) \<and>
           entries t' = upd key val (entries t)"
proof -
  have ok: "inner_ok 3 t" and lv: "level t = Suc h" using inv by auto
  obtain l c ks cs where t: "t = InnerNode l c ks cs" using ok by (cases t) auto
  have c3: "(3::nat) \<le> 65535" "(2::nat) \<le> 3" by simp_all
  have two: "2 \<le> key_count t" using kc by simp
  have d: "(key_count t - 1) div 2 = 1" using kc by simp
  from ok_inner_split [OF inv two c3(1)]
  obtain sep left right0 where s: "inner_split t (new_inner 3) = Inr (sep, left, right0)"
    "subtree_ok 3 (Suc h) None (Some sep) left"
    "subtree_ok 3 (Suc h) (Some sep) None (set_level right0 (level left))"
    "level left = Suc h"
    "entries t = entries left @ entries (set_level right0 (level left))"
    by blast
  let ?right = "set_level right0 (level left)"
  from inner_split_spec [OF ok two c3(1)]
  obtain left2 right2 where s2:
    "inner_split t (new_inner 3) = Inr (seps t ! ((key_count t - 1) div 2), left2, right2)"
    "key_count left2 = Suc ((key_count t - 1) div 2)"
    "kids left2 = take (Suc ((key_count t - 1) div 2)) (kids t)"
    by blast
  have sh: "sep = seps t ! 1" "key_count left = 2" "kids left = take 2 (kids t)"
    using s(1) s2 unfolding d by (simp_all add: numeral_2_eq_2)
  have "length (seps t) = 2" using inner_ok_lengths [OF ok] kc by simp
  then have "sep \<in> set (seps t)" using sh(1) by simp
  then have "key < sep" using seps_stored [OF inv] small by blast
  then have ge: "\<not> sep < key" by simp
  have lsmall: "\<forall>k\<in>fst ` set (entries left). key < k" using small s(5) by auto
  have "length (kids t) = 3" using inner_ok_lengths [OF ok] kc by simp
  then have "kids left ! 0 = kids t ! 0" using sh(3) by simp
  then have lfull: "full_left 3 h (kids left ! 0)" using full by simp
  from put_loop_left [OF s(2) sh(2) lsmall _ lfull, of val]
  obtain left' where l': "put_loop 3 left key val = Inr left'"
    "subtree_ok 3 (Suc h) None (Some sep) left'"
    "entries left' = upd key val (entries left)"
    "key_count left' = 3" "full_left 3 h (kids left' ! 0)" by auto
  from new_root_spec [OF c3(2,1), of "u16 (int (Suc h) + 1)" left' sep ?right]
  obtain t' where t': "new_root 3 (u16 (int (Suc h) + 1)) left' sep ?right = Inr t'"
    "inner_ok 3 t'" "level t' = u16 (int (Suc h) + 1)" "key_count t' = 2"
    "seps t' = [sep]" "kids t' = [left', ?right]" by blast
  have run: "put 3 t key val = Inr t'"
    unfolding t using lv kc s(1) s(4) ge l'(1) t'(1) unfolding t
    by (simp add: put_def Let_def)
  note hk = ok_halves_keys [OF s(2,3)]
  have "entries t' = upd key val (entries left) @ entries ?right"
    using entries_inner [OF t'(2)] t'(6) l'(3) by simp
  also have "\<dots> = upd key val (entries t)"
    using upd_halves [OF hk, of key val] ge s(5) by simp
  finally have e: "entries t' = upd key val (entries t)" .
  show ?thesis using run t'(2-6) l'(2,4,5) s(3) e by blast
qed

lemma descending_base:
  "\<exists>t. run 3 Null (puts_of (descending 4)) = Inr t \<and> subtree_ok 3 (Suc 0) None None t \<and>
       key_count t = 2 \<and> full_left 3 0 (kids t ! 0) \<and>
       fst ` set (entries t) = (\<lambda>i. - int i) ` {..<4}"
proof -
  let ?t = "InnerNode 1 2 [Some (- 1 :: int), None, None]
      [LeafNode 0 3 [Some (- 3), Some (- 2), Some (- 1)] [Some (3::nat), Some 2, Some 1],
       LeafNode 0 1 [Some 0, None, None] [Some 0, None, None], Null]"
  have r: "run 3 Null (puts_of (descending 4)) = Inr ?t"
    unfolding descending_4 by (simp add: puts_of_def eval_simps)
  have i: "subtree_ok 3 (Suc 0) None None ?t" by (simp add: inv_simps)
  have k: "key_count ?t = 2" "full_left 3 0 (kids ?t ! 0)" by (simp_all add: kids.simps)
  have "{..<4::nat} = {0, 1, 2, 3}" by auto
  then have e: "fst ` set (entries ?t) = (\<lambda>i. - int i) ` {..<4}"
    by (simp add: insert_commute)
  show ?thesis using r i k e by blast
qed

lemma descending_run:
  "j \<le> 65534 \<Longrightarrow>
   \<exists>t. run 3 Null (puts_of (descending (4 + 2 * j))) = Inr t \<and>
       subtree_ok 3 (Suc j) None None t \<and> key_count t = 2 \<and> full_left 3 j (kids t ! 0) \<and>
       fst ` set (entries t) = (\<lambda>i. - int i) ` {..<4 + 2 * j}"
proof (induction j)
  case 0
  then show ?case using descending_base by simp
next
  case (Suc j)
  define n where "n = 4 + 2 * j"
  from Suc obtain t where t: "run 3 Null (puts_of (descending n)) = Inr t"
    "subtree_ok 3 (Suc j) None None t" "key_count t = 2" "full_left 3 j (kids t ! 0)"
    "fst ` set (entries t) = (\<lambda>i. - int i) ` {..<n}"
    unfolding n_def by auto
  have s1: "\<forall>k\<in>fst ` set (entries t). - int n < k" unfolding t(5) by auto
  from put_grow [OF t(2,3) s1 t(4), of n]
  obtain t1 where t1: "put 3 t (- int n) n = Inr t1" "subtree_ok 3 (Suc j) None None t1"
    "entries t1 = upd (- int n) n (entries t)" "key_count t1 = 3"
    "full_left 3 j (kids t1 ! 0)" by blast
  have e1: "fst ` set (entries t1) = (\<lambda>i. - int i) ` {..<Suc n}"
    unfolding t1(3) set_map_fst_upd t(5) by (simp add: lessThan_Suc)
  have s2: "\<forall>k\<in>fst ` set (entries t1). - int (Suc n) < k" unfolding e1 by auto
  from put_split_root [OF t1(2,4) s2 t1(5), of "Suc n"]
  obtain t2 sep left right where t2: "put 3 t1 (- int (Suc n)) (Suc n) = Inr t2"
    "inner_ok 3 t2" "level t2 = u16 (int (Suc j) + 1)" "key_count t2 = 2"
    "seps t2 = [sep]" "kids t2 = [left, right]"
    "subtree_ok 3 (Suc j) None (Some sep) left" "subtree_ok 3 (Suc j) (Some sep) None right"
    "key_count left = 3" "full_left 3 j (kids left ! 0)"
    "entries t2 = upd (- int (Suc n)) (Suc n) (entries t1)" by blast
  have lv: "level t2 = Suc (Suc j)" using t2(3) Suc.prems by (simp add: u16_def)
  have i2: "subtree_ok 3 (Suc (Suc j)) None None t2"
    using t2(2,5,6,7,8) lv Suc.prems by simp
  have f2: "full_left 3 (Suc j) (kids t2 ! 0)" using t2(6,9,10) by simp
  have e2: "fst ` set (entries t2) = (\<lambda>i. - int i) ` {..<Suc (Suc n)}"
    unfolding t2(11) set_map_fst_upd e1 by (simp add: lessThan_Suc)
  have d: "descending (4 + 2 * Suc j) = descending n @ [(- int n, n)] @ [(- int (Suc n), Suc n)]"
    using descending_Suc [of "Suc n"] descending_Suc [of n] by (simp add: n_def)
  have "run 3 Null (puts_of (descending (4 + 2 * Suc j))) = Inr t2"
    unfolding d puts_of_append run_append t(1) run_put using t1(1) t2(1) by simp
  moreover have "4 + 2 * Suc j = Suc (Suc n)" by (simp add: n_def)
  ultimately show ?case using i2 t2(4) f2 e2 by auto
qed

lemma level_wraps:
  "\<exists>t. run 3 Null (puts_of (descending 131074)) = Inr t \<and> inner_object t \<and> level t = 0 \<and>
       map level (kids t) = [65535, 65535] \<and> length (seps t) = 1"
proof -
  define n :: nat where "n = 131072"
  from descending_run [of 65534]
  obtain t where t: "run 3 Null (puts_of (descending n)) = Inr t"
    "subtree_ok 3 65535 None None t" "key_count t = 2" "full_left 3 65534 (kids t ! 0)"
    "fst ` set (entries t) = (\<lambda>i. - int i) ` {..<n}"
    unfolding n_def by auto
  have h: "(65535::nat) = Suc 65534" by simp
  note inv = t(2) [unfolded h]
  have s1: "\<forall>k\<in>fst ` set (entries t). - int n < k" unfolding t(5) by auto
  from put_grow [OF inv t(3) s1 t(4), of n]
  obtain t1 where t1: "put 3 t (- int n) n = Inr t1" "subtree_ok 3 (Suc 65534) None None t1"
    "entries t1 = upd (- int n) n (entries t)" "key_count t1 = 3"
    "full_left 3 65534 (kids t1 ! 0)" by blast
  have e1: "fst ` set (entries t1) = (\<lambda>i. - int i) ` {..<Suc n}"
    unfolding t1(3) set_map_fst_upd t(5) by (simp add: lessThan_Suc)
  have s2: "\<forall>k\<in>fst ` set (entries t1). - int (Suc n) < k" unfolding e1 by auto
  from put_split_root [OF t1(2,4) s2 t1(5), of "Suc n"]
  obtain t2 sep left right where t2: "put 3 t1 (- int (Suc n)) (Suc n) = Inr t2"
    "inner_ok 3 t2" "level t2 = u16 (int (Suc 65534) + 1)"
    "kids t2 = [left, right]" "seps t2 = [sep]"
    "subtree_ok 3 (Suc 65534) None (Some sep) left"
    "subtree_ok 3 (Suc 65534) (Some sep) None right" by blast
  have ls: "length (seps t2) = 1" using t2(5) by simp
  have lv: "level t2 = 0" using t2(3) by (simp add: u16_def)
  have io: "inner_object t2" using t2(2) by (cases t2) auto
  note subtree_level [OF t2(6)] subtree_level [OF t2(7)]
  then have kl: "map level (kids t2) = [65535, 65535]" using t2(4) by simp
  have d: "descending 131074 = descending n @ [(- int n, n)] @ [(- int (Suc n), Suc n)]"
    using descending_Suc [of "Suc n"] descending_Suc [of n] by (simp add: n_def)
  have "run 3 Null (puts_of (descending 131074)) = Inr t2"
    unfolding d puts_of_append run_append t(1) run_put using t1(1) t2(1) by simp
  then have "run 3 Null (puts_of (descending 131074)) = Inr t2 \<and> inner_object t2 \<and>
      level t2 = 0 \<and> map level (kids t2) = [65535, 65535] \<and> length (seps t2) = 1"
    using io lv kl ls by (intro conjI)
  then show ?thesis by (rule exI)
qed

section \<open>Capacities beyond the 16-bit count\<close>

text \<open>
  With \<^verbatim>\<open>kCapacity\<close> of 65536 or more the \<^verbatim>\<open>uint16_t key_count\<close> of a leaf stays below the
  capacity, so \<^verbatim>\<open>put\<close> never splits: the tree is empty or a single leaf of level 0
  (\<open>one_leaf\<close>), whose count returns to 0 after 65535. \<open>put_keys ops\<close> is the set of keys that
  \<open>ops\<close> puts. At these capacities the root level is always 0, so every sequence keeps it
  below 65535 (\<open>levels_fit_large\<close>). \<open>reach_any\<close> joins the two ranges of the capacity.
\<close>

definition one_leaf :: "nat \<Rightarrow> ('k::linorder, 'v) node \<Rightarrow> bool" where
  "one_leaf cap t =
     (t = Null \<or> leaf_ok cap t \<and> key_count t < 65536 \<and> sorted_wrt (<) (leaf_keys t))"

lemma leaf_insert_one_leaf:
  assumes cap: "65536 \<le> cap" and ok: "leaf_ok cap n" and kc: "key_count n < 65536"
    and srt: "sorted_wrt (<) (leaf_keys n)"
  shows "\<exists>n'. leaf_insert n key val = Inr n' \<and> leaf_ok cap n' \<and> key_count n' < 65536 \<and>
           sorted_wrt (<) (leaf_keys n') \<and> set (leaf_keys n') \<subseteq> insert key (set (leaf_keys n))"
proof -
  obtain l c ks vs where n: "n = LeafNode l c ks vs" using ok by (cases n) auto
  let ?xs = "map the (take c ks)"
  have srt': "sorted_wrt (<) ?xs" using srt n by simp
  have c: "c < 65536" "c < cap" using kc cap n by simp_all
  show ?thesis
  proof (cases "key \<in> set (leaf_keys n)")
    case True
    then have mem: "key \<in> set ?xs" using n by simp
    let ?n' = "LeafNode l c ks (vs[rank key ?xs := Some val])"
    have 1: "leaf_insert n key val = Inr ?n'"
      using leaf_insert_found [OF ok [unfolded n] srt' mem, of val] n by simp
    have iv: "c \<le> length vs" "\<forall>i<c. vs ! i \<noteq> None" using ok n by (auto simp: initd_nth)
    have "(vs[rank key ?xs := Some val]) ! i \<noteq> None" if "i < c" for i
      using that iv by (cases "i = rank key ?xs") simp_all
    then have "initd c (vs[rank key ?xs := Some val])" using iv(1) by (simp add: initd_nth)
    then have 2: "leaf_ok cap ?n'" using ok n by simp
    have 3: "leaf_keys ?n' = leaf_keys n" "key_count ?n' = key_count n" using n by simp_all
    show ?thesis using 1 2 3 kc srt by auto
  next
    case False
    show ?thesis
    proof (cases "c < 65535")
      case True
      have "key_count n < cap" "key_count n < 65535" using c True n by simp_all
      from leaf_insert_small [OF ok srt False this, of val]
      obtain n' where n': "leaf_insert n key val = Inr n'" "leaf_ok cap n'"
        "leaf_entries n' = upd key val (leaf_entries n)" "key_count n' = Suc (key_count n)"
        by blast
      have mf: "map fst (leaf_entries n) = leaf_keys n" "map fst (leaf_entries n') = leaf_keys n'"
        using map_fst_leaf_entries ok n'(2) by blast+
      have s': "sorted_wrt (<) (leaf_keys n')"
        using sorted_upd [of "leaf_entries n" key val] srt mf n'(3) by simp
      have "set (leaf_keys n') = insert key (set (leaf_keys n))"
        using set_map_fst_upd [of key val "leaf_entries n"] mf n'(3)
        by (metis list.set_map)
      moreover have "key_count n' < 65536" using n'(4) True n by simp
      ultimately show ?thesis using n'(1,2) s' by auto
    next
      case full: False
      then have c': "c = 65535" using c by simp
      have new: "key \<notin> set ?xs" using False n by simp
      from leaf_insert_new [OF ok [unfolded n] srt' new c(2), of val]
      obtain ks' vs' where r: "leaf_insert n key val = Inr (LeafNode l (u16 (int c + 1)) ks' vs')"
        "length ks' = cap" "length vs' = cap"
        using n by auto
      have u: "u16 (int c + 1) = 0" using c' by (simp add: u16_def)
      let ?n' = "LeafNode l 0 ks' vs'"
      have 1: "leaf_insert n key val = Inr ?n'" using r(1) u by simp
      have 2: "leaf_ok cap ?n'" using r(2,3) ok n by (simp add: initd_def)
      show ?thesis using 1 2 by auto
    qed
  qed
qed

lemma put_one_leaf:
  fixes t :: "('k::linorder, 'v) node"
  assumes cap: "65536 \<le> cap" and t: "one_leaf cap t"
  shows "\<exists>t'. put cap t key val = Inr t' \<and> t' \<noteq> Null \<and> one_leaf cap t' \<and>
           fst ` set (entries t') \<subseteq> insert key (fst ` set (entries t))"
proof -
  let ?new = "new_leaf cap :: ('k, 'v) node"
  define n where "n = (if t = Null then ?new else t)"
  have nok: "leaf_ok cap ?new" "key_count ?new = 0" "leaf_keys ?new = []"
    by (simp_all add: new_leaf_def initd_def)
  have ok: "leaf_ok cap n" "key_count n < 65536" "sorted_wrt (<) (leaf_keys n)"
    using t nok by (auto simp: n_def one_leaf_def)
  have p: "put cap t key val = leaf_insert n key val"
  proof (cases "t = Null")
    case True
    then show ?thesis by (simp add: put_def n_def)
  next
    case False
    then have "leaf_ok cap t" "key_count t < cap" using t cap by (auto simp: one_leaf_def)
    from put_leaf_root [OF this] show ?thesis using False by (simp add: n_def)
  qed
  have en: "fst ` set (entries n) = set (leaf_keys n)"
    using entries_leaf [OF ok(1)] map_fst_leaf_entries [OF ok(1)] by (metis list.set_map)
  have sub: "set (leaf_keys n) \<subseteq> fst ` set (entries t)"
  proof (cases "t = Null")
    case True
    then show ?thesis using nok by (simp add: n_def)
  next
    case False
    then show ?thesis using en by (simp add: n_def)
  qed
  from leaf_insert_one_leaf [OF cap ok, of key val]
  obtain n' where n': "leaf_insert n key val = Inr n'" "leaf_ok cap n'" "key_count n' < 65536"
    "sorted_wrt (<) (leaf_keys n')" "set (leaf_keys n') \<subseteq> insert key (set (leaf_keys n))"
    by blast
  have en': "fst ` set (entries n') = set (leaf_keys n')"
    using entries_leaf [OF n'(2)] map_fst_leaf_entries [OF n'(2)] by (metis list.set_map)
  have "n' \<noteq> Null" using n'(2) by auto
  moreover have "one_leaf cap n'" using n'(2,3,4) by (simp add: one_leaf_def)
  moreover have "fst ` set (entries n') \<subseteq> insert key (fst ` set (entries t))"
    using en' n'(5) sub by auto
  ultimately show ?thesis using p n'(1) by auto
qed

lemma get_one_leaf:
  assumes "one_leaf cap t"
  shows "get t key = Inr (map_of (entries t) key)"
proof (cases "t = Null")
  case True
  then have "tree_ok cap t" by (simp add: tree_ok_def)
  then show ?thesis by (rule get_spec)
next
  case False
  then have ok: "leaf_ok cap t" and srt: "sorted_wrt (<) (leaf_keys t)"
    using assms by (auto simp: one_leaf_def)
  show ?thesis
  proof (cases "0 < key_count t")
    case True
    then have "subtree_ok cap 0 None None t" using ok srt by simp
    then have "tree_ok cap t" by (rule tree_okI)
    then show ?thesis by (rule get_spec)
  next
    case z: False
    obtain l c ks vs where t: "t = LeafNode l c ks vs" using ok by (cases t) auto
    have "entries t = []" using entries_leaf [OF ok] z t by (simp add: leaf_entries_def)
    moreover have "get t key = Inr None"
      using ok z t by (simp add: get_def get_run_def get_loop.simps leaf_lower_bound.simps)
    ultimately show ?thesis by simp
  qed
qed

definition put_keys :: "('k, 'v) op list \<Rightarrow> 'k set" where
  "put_keys ops = {k. latest ops k \<noteq> None}"

lemma put_keys_Cons: "put_keys ops \<subseteq> put_keys (a # ops)"
  by (cases a) (auto simp: put_keys_def split: option.splits)

lemma put_keys_Put: "key \<in> put_keys (Put key val # ops)"
  by (simp add: put_keys_def split: option.splits)

lemma put_keys_latest: "latest ops k = None \<Longrightarrow> k \<notin> put_keys ops"
  by (simp add: put_keys_def)

lemma run_one_leaf:
  fixes t :: "('k::linorder, 'v) node"
  assumes cap: "65536 \<le> cap"
  shows "one_leaf cap t \<Longrightarrow>
         \<exists>t'. run cap t ops = Inr t' \<and> one_leaf cap t' \<and>
              fst ` set (entries t') \<subseteq> fst ` set (entries t) \<union> put_keys ops"
proof (induction ops arbitrary: t)
  case Nil
  then show ?case by simp
next
  case (Cons a ops)
  show ?case
  proof (cases a)
    case (Get key)
    from Cons.IH [OF Cons.prems]
    obtain t' where t': "run cap t ops = Inr t'" "one_leaf cap t'"
      "fst ` set (entries t') \<subseteq> fst ` set (entries t) \<union> put_keys ops" by blast
    have r: "run cap t (a # ops) = Inr t'"
      using Get get_one_leaf [OF Cons.prems, of key] t'(1) by simp
    have "fst ` set (entries t') \<subseteq> fst ` set (entries t) \<union> put_keys (a # ops)"
      using t'(3) put_keys_Cons [of ops a] by blast
    then have "run cap t (a # ops) = Inr t' \<and> one_leaf cap t' \<and>
        fst ` set (entries t') \<subseteq> fst ` set (entries t) \<union> put_keys (a # ops)"
      using r t'(2) by (intro conjI)
    then show ?thesis by (rule exI)
  next
    case (Put key val)
    from put_one_leaf [OF cap Cons.prems, of key val]
    obtain t1 where t1: "put cap t key val = Inr t1" "one_leaf cap t1"
      "fst ` set (entries t1) \<subseteq> insert key (fst ` set (entries t))" by blast
    from Cons.IH [OF t1(2)]
    obtain t' where t': "run cap t1 ops = Inr t'" "one_leaf cap t'"
      "fst ` set (entries t') \<subseteq> fst ` set (entries t1) \<union> put_keys ops" by blast
    have r: "run cap t (a # ops) = Inr t'" using Put t1(1) t'(1) by simp
    have "key \<in> put_keys (a # ops)" using put_keys_Put Put by metis
    then have "fst ` set (entries t') \<subseteq> fst ` set (entries t) \<union> put_keys (a # ops)"
      using t'(3) t1(3) put_keys_Cons [of ops a] by blast
    then have "run cap t (a # ops) = Inr t' \<and> one_leaf cap t' \<and>
        fst ` set (entries t') \<subseteq> fst ` set (entries t) \<union> put_keys (a # ops)"
      using r t'(2) by (intro conjI)
    then show ?thesis by (rule exI)
  qed
qed

lemma levels_fit_one_leaf:
  fixes t :: "('k::linorder, 'v) node"
  assumes cap: "65536 \<le> cap"
  shows "one_leaf cap t \<Longrightarrow> levels_fit cap t ops"
proof (induction ops arbitrary: t)
  case Nil
  then show ?case by simp
next
  case (Cons a ops)
  show ?case
  proof (cases a)
    case (Get key)
    then show ?thesis using Cons.IH [OF Cons.prems] by (simp split: sum.splits)
  next
    case (Put key val)
    have lv: "tree_level t < 65535"
    proof (cases "t = Null")
      case True
      then show ?thesis by (simp add: tree_level_def)
    next
      case False
      then have "leaf_ok cap t" using Cons.prems by (simp add: one_leaf_def)
      then show ?thesis by (cases t) (simp_all add: tree_level_def)
    qed
    from put_one_leaf [OF cap Cons.prems, of key val]
    obtain t1 where t1: "put cap t key val = Inr t1" "one_leaf cap t1" by blast
    show ?thesis using Put lv t1(1) Cons.IH [OF t1(2)] by simp
  qed
qed

lemma levels_fit_large:
  fixes ops :: "('k::linorder, 'v) op list"
  assumes "65536 \<le> cap"
  shows "levels_fit cap Null ops"
proof -
  have "one_leaf cap (Null :: ('k, 'v) node)" by (simp add: one_leaf_def)
  then show ?thesis by (rule levels_fit_one_leaf [OF assms])
qed

lemma reach_any:
  fixes ops :: "('k::linorder, 'v) op list"
  assumes "3 \<le> cap" "levels_fit cap Null ops"
  shows "\<exists>t. run cap Null ops = Inr t \<and>
           (cap \<le> 65535 \<and> tree_ok cap t \<and> entries t = contents ops [] \<or>
            65536 \<le> cap \<and> one_leaf cap t \<and> fst ` set (entries t) \<subseteq> put_keys ops)"
proof (cases "cap \<le> 65535")
  case True
  from reach [OF assms(1) True assms(2)] True show ?thesis by blast
next
  case False
  then have cap: "65536 \<le> cap" by simp
  have "one_leaf cap (Null :: ('k, 'v) node)" by (simp add: one_leaf_def)
  from run_one_leaf [OF cap this, of ops] cap show ?thesis by auto
qed

lemma one_leaf_nodes:
  assumes "one_leaf cap t" "m \<in> set (nodes t)"
  shows "leaf_ok cap m \<and> sorted_wrt (<) (leaf_keys m)"
proof -
  have "t \<noteq> Null" using assms(2) by auto
  then have ok: "leaf_ok cap t" "sorted_wrt (<) (leaf_keys t)"
    using assms(1) by (auto simp: one_leaf_def)
  then have "m = t" using nodes_leaf [OF ok(1)] assms(2) by simp
  then show ?thesis using ok by simp
qed

lemma leaf_ok_views:
  assumes "leaf_ok cap m"
  shows "seps m = []" "kids m = []" "leaf_object m" "\<not> inner_object m" "level m = 0"
  using assms by (cases m; simp add: seps.simps kids.simps)+

section \<open>Lookups of separators\<close>



lemma get_wrapped: "inner_object t \<Longrightarrow> level t = 0 \<Longrightarrow> get t key = Inl BadCast"
  by (cases t) (simp_all add: get_def get_run_def get_loop.simps)

lemma descending_keys: "fst ` set (descending n) = (\<lambda>i. - int i) ` {..<n}"
  by (auto simp: descending_def image_iff)


section \<open>Claims\<close>

text \<open>
  C1, amended. For every capacity from 3 to 65535 and every sequence of \<^verbatim>\<open>get\<close> and \<^verbatim>\<open>put\<close>
  calls on a fresh tree that keeps the root level below 65535 before each put
  (\<open>levels_fit\<close>; every sequence of at most 65535 calls does, by \<open>levels_fit_fresh\<close>), all
  calls return, and a following \<^verbatim>\<open>get(k)\<close> returns the value of the most recent \<^verbatim>\<open>put\<close> for
  \<open>k\<close> (\<open>latest ops k\<close>), or the absent result when \<open>k\<close> was never put.
\<close>

theorem C1_round_trip:
  fixes ops :: "('k::linorder, 'v) op list"
  assumes "3 \<le> cap" "cap \<le> 65535" "levels_fit cap Null ops"
  shows "\<exists>t. run cap Null ops = Inr t \<and> (\<forall>k. get t k = Inr (latest ops k))"
proof -
  from reach [OF assms] obtain t where t: "run cap Null ops = Inr t" "tree_ok cap t"
    "entries t = contents ops []" by blast
  have "get t k = Inr (latest ops k)" for k
    using get_spec [OF t(2), of k] t(3) map_of_contents [of ops "[]" k]
    by (simp split: option.splits)
  then show ?thesis using t(1) by blast
qed

text \<open>C1 at capacity 3: six puts, one of them an update of key 2.\<close>

theorem C1_round_trip_witness:
  "(3::nat) \<le> 3 \<and> (3::nat) \<le> 65535 \<and>
   levels_fit 3 Null [Put (2::nat) (20::nat), Put 1 10, Put 3 30, Put 4 40, Put 2 21, Put 0 0] \<and>
   (\<exists>t. run 3 Null [Put (2::nat) (20::nat), Put 1 10, Put 3 30, Put 4 40, Put 2 21, Put 0 0] = Inr t \<and>
      (\<forall>k. get t k = Inr (latest [Put 2 20, Put 1 10, Put 3 30, Put 4 40, Put 2 21, Put 0 0] k)))"
proof -
  have h: "levels_fit 3 Null [Put (2::nat) (20::nat), Put 1 10, Put 3 30, Put 4 40, Put 2 21, Put 0 0]"
    by (rule levels_fit_fresh) simp_all
  have c: "(3::nat) \<le> 3" "(3::nat) \<le> 65535" by simp_all
  show ?thesis using c h C1_round_trip [OF c h] by blast
qed

text \<open>
  C1 as stated, for every capacity of at least 2, fails at capacity 65536: after the keys
  \<open>0, \<dots>, 65536\<close> were put in increasing order, each with itself as value, \<^verbatim>\<open>get(0)\<close> is
  absent although the most recent put for key 0 stored 0. \<^verbatim>\<open>key_count\<close> is a \<^verbatim>\<open>uint16_t\<close>:
  the 65536th put wraps it from 65535 to 0 and the leaf starts over.
\<close>

theorem C1_counterexample:
  "get_after 65536 (puts_of (ascending 65537)) 0 = Inr None \<and>
   latest (puts_of (ascending 65537)) 0 = Some 0"
proof -
  have e: "Suc 65535 = (65536::nat)" "Suc (Suc 65535) = (65537::nat)" "Suc 65536 = (65537::nat)"
    by simp_all
  have "get_after (Suc 65535) (puts_of (ascending (Suc (Suc 65535)))) 0 = Inr None"
    by (rule count_wrap_get(1)) simp_all
  moreover have "latest (puts_of (ascending (Suc 65536))) 0 = Some 0"
    by (rule latest_ascending)
  ultimately show ?thesis unfolding e by blast
qed

text \<open>
  C3 (the code departs from the claim). The claim: for every capacity of at least 2, splitting
  a full node leaves the node and its new right neighbour with at least one entry each. At
  capacity 2 \<^verbatim>\<open>LeafNode::split\<close> computes \<^verbatim>\<open>mid_key_index = 2 / 2 = 1\<close>, keeps
  \<^verbatim>\<open>left_count = 2\<close> entries and gives the right neighbour \<^verbatim>\<open>right_count = 0\<close>: the full
  leaf stays full and the new leaf is empty. \<^verbatim>\<open>InnerNode::split\<close> takes its midpoint from
  \<^verbatim>\<open>key_count - 1\<close> and splits two children into one and one.
\<close>

theorem C3_leaf_split_capacity_2:
  "leaf_split (LeafNode 0 2 [Some (1::nat), Some 2] [Some (10::nat), Some 20]) (new_leaf 2) =
     Inr (2, LeafNode 0 2 [Some 1, Some 2] [Some 10, Some 20],
          LeafNode 0 0 [None, None] [None, None])"
  by code_simp

text \<open>
  C4, amended. For every capacity of at least 3 and every sequence of \<^verbatim>\<open>get\<close> and \<^verbatim>\<open>put\<close>
  calls on a fresh tree that keeps the root level below 65535 before each put (every sequence
  does at a capacity of 65536 or more, by \<open>levels_fit_large\<close>), all calls return, and in the
  resulting tree the valid keys of every leaf (\<open>leaf_keys\<close>) and the valid separators of every
  inner node (\<open>seps\<close>) are strictly ascending.
\<close>

theorem C4_sorted_nodes:
  fixes ops :: "('k::linorder, 'v) op list"
  assumes "3 \<le> cap" "levels_fit cap Null ops"
  shows "\<exists>t. run cap Null ops = Inr t \<and>
           (\<forall>m\<in>set (nodes t). sorted_wrt (<) (leaf_keys m) \<and> sorted_wrt (<) (seps m))"
proof -
  from reach_any [OF assms] obtain t where t: "run cap Null ops = Inr t"
    "tree_ok cap t \<or> one_leaf cap t" by blast
  have "sorted_wrt (<) (leaf_keys m) \<and> sorted_wrt (<) (seps m)" if m: "m \<in> set (nodes t)" for m
    using t(2)
  proof
    assume "tree_ok cap t"
    from tree_nodes [OF this m] subtree_ok_sorted show ?thesis by blast
  next
    assume "one_leaf cap t"
    from one_leaf_nodes [OF this m] show ?thesis using leaf_ok_views(1) [of cap m] by simp
  qed
  then show ?thesis using t(1) by blast
qed

text \<open>C4 at capacity 3, on a sequence that mixes gets and puts and splits the root.\<close>

theorem C4_sorted_nodes_witness:
  "(3::nat) \<le> 3 \<and>
   levels_fit 3 Null [Put (5::nat) (50::nat), Get 5, Put 3 30, Put 8 80, Put 1 10, Get 2, Put 4 40] \<and>
   (\<exists>t. run 3 Null [Put (5::nat) (50::nat), Get 5, Put 3 30, Put 8 80, Put 1 10, Get 2, Put 4 40] = Inr t \<and>
      (\<forall>m\<in>set (nodes t). sorted_wrt (<) (leaf_keys m) \<and> sorted_wrt (<) (seps m)))"
proof -
  have h: "levels_fit 3 Null [Put (5::nat) (50::nat), Get 5, Put 3 30, Put 8 80, Put 1 10, Get 2, Put 4 40]"
    by (rule levels_fit_fresh) simp_all
  have c: "(3::nat) \<le> 3" by simp
  show ?thesis using c h C4_sorted_nodes [OF c h] by blast
qed

text \<open>
  C4 as stated, for every finite sequence, fails at capacity 3 on the 131075 puts of the keys
  \<open>0, -1, \<dots>, -131074\<close>: the 131074th put gives the new root the level 65535 + 1, which the
  \<^verbatim>\<open>uint16_t\<close> field stores as 0, and the next put takes this inner root for a leaf
  (\<^verbatim>\<open>is_leaf()\<close> holds) and casts it to \<^verbatim>\<open>LeafNode*\<close>. The sequence has no defined resulting
  tree.
\<close>

theorem C4_counterexample:
  "run 3 Null (puts_of (descending 131075)) = Inl BadCast"
proof -
  from level_wraps obtain t where t: "run 3 Null (puts_of (descending 131074)) = Inr t"
    "inner_object t" "level t = 0" by blast
  have p: "put 3 t k v = Inl BadCast" for k v
    using t(2,3) by (cases t) (simp_all add: put_def)
  have "descending 131075 = descending 131074 @ [(- int 131074, 131074)]"
    using descending_Suc [of 131074] by simp
  then show ?thesis unfolding puts_of_append run_append run_put
    by (simp add: puts_of_append run_append run_put t(1) p)
qed

text \<open>
  C5, amended. For every capacity from 2 to 65535, putting \<open>capacity + 1\<close> pairs with strictly
  increasing keys into a fresh tree gives a tree of depth 2: an inner root of level 1 with
  exactly two children, both leaves, and \<^verbatim>\<open>get\<close> returns the stored value for every one of
  the keys.
\<close>

theorem C5_split:
  fixes kvs :: "(('k::linorder) \<times> 'v) list"
  assumes cap: "2 \<le> cap" "cap \<le> 65535"
    and srt: "sorted_wrt (<) (map fst kvs)" and len: "length kvs = Suc cap"
  shows "\<exists>t left right. run cap Null (puts_of kvs) = Inr t \<and> depth t = 2 \<and>
           inner_object t \<and> level t = 1 \<and> key_count t = 2 \<and> kids t = [left, right] \<and>
           leaf_object left \<and> leaf_object right \<and>
           (\<forall>(k, v) \<in> set kvs. get t k = Inr (Some v))"
proof -
  obtain ys x where kvs: "kvs = ys @ [x]" using len by (cases kvs rule: rev_cases) auto
  obtain k v where x: "x = (k, v)" by (cases x)
  have sy: "sorted_wrt (<) (map fst ys)" and gt: "\<forall>a\<in>fst ` set ys. a < k"
    using srt kvs x by (auto simp: sorted_wrt_append)
  have ly: "length ys = cap" "ys \<noteq> []" using len kvs cap by auto
  from fill_leaf [OF sy] ly cap
  obtain t0 where t0: "run cap Null (puts_of ys) = Inr t0" "leaf_ok cap t0"
    "key_count t0 = cap" "leaf_entries t0 = ys"
    by auto
  have r: "run cap Null (puts_of kvs) = put cap t0 k v"
    using t0(1) x kvs by (simp add: puts_of_def run_append split: sum.splits)
  have keys0: "leaf_keys t0 = map fst ys" using map_fst_leaf_entries [OF t0(2)] t0(4) by simp
  define m where "m = cap div 2"
  have m: "m < cap" "Suc m \<le> cap" using cap by (auto simp: m_def)
  from leaf_split_spec [OF t0(2) _ cap(2)] t0(3) cap
  obtain left right where s: "leaf_split t0 (new_leaf cap) = Inr (leaf_keys t0 ! m, left, right)"
    "leaf_ok cap left" "leaf_ok cap right" "key_count left = Suc m"
    "key_count right = cap - Suc m"
    "leaf_entries left = take (Suc m) ys" "leaf_entries right = drop (Suc m) ys"
    unfolding m_def t0(4) by auto
  let ?sep = "leaf_keys t0 ! m"
  have kl: "leaf_keys left = take (Suc m) (map fst ys)"
    using map_fst_leaf_entries [OF s(2)] s(6) by (simp add: take_map)
  have kr: "leaf_keys right = drop (Suc m) (map fst ys)"
    using map_fst_leaf_entries [OF s(3)] s(7) by (simp add: drop_map)
  have sep: "?sep = map fst ys ! m" using keys0 by simp
  have sep_lt: "?sep < k" using gt sep m ly by (metis length_map list.set_map nth_mem)
  have lle: "\<forall>a\<in>set (leaf_keys left). a \<le> ?sep"
  proof
    fix a assume "a \<in> set (leaf_keys left)"
    then obtain i where i: "i < Suc m" "a = map fst ys ! i"
      using kl m ly by (auto simp: in_set_conv_nth)
    show "a \<le> ?sep"
      using sorted_wrt_nth_less [OF sy, of i m] i m ly sep by (cases "i = m") auto
  qed
  have rgt: "\<forall>a\<in>set (leaf_keys right). ?sep < a"
  proof
    fix a assume "a \<in> set (leaf_keys right)"
    then obtain i where i: "i < cap - Suc m" "a = map fst ys ! (Suc m + i)"
      using kr m ly by (auto simp: in_set_conv_nth)
    show "?sep < a"
      using sorted_wrt_nth_less [OF sy, of m "Suc m + i"] i m ly sep by auto
  qed
  have sl: "sorted_wrt (<) (leaf_keys left)" "sorted_wrt (<) (leaf_keys right)"
    using sy kl kr by (auto intro: sorted_wrt_take sorted_wrt_drop)
  have "?sep \<in> set (leaf_keys left)"
    unfolding kl sep using m ly by (auto simp: in_set_conv_nth intro!: exI [of _ m])
  then have wl: "subtree_ok cap 0 None (Some ?sep) left" using s(2,4) sl(1) lle by simp
  have knew: "k \<notin> set (leaf_keys right)" using gt kr by (auto dest!: in_set_dropD)
  have "key \<in> set (leaf_keys right) \<or> key_count right < cap" for key using s(5) m by simp
  from leaf_insert_spec [OF s(3) sl(2) this cap(2), of k v]
  obtain r' where r': "leaf_insert right k v = Inr r'" "leaf_ok cap r'"
    "leaf_entries r' = upd k v (leaf_entries right)" "key_count r' = Suc (key_count right)"
    using knew by auto
  have gtr: "\<forall>a\<in>fst ` set (leaf_entries right). a < k"
    using gt s(7) by (auto dest!: in_set_dropD)
  have er: "leaf_entries r' = drop (Suc m) ys @ [x]"
    using r'(3) upd_greatest [OF gtr] s(7) x by simp
  have "leaf_keys r' = leaf_keys right @ [k]"
    using map_fst_leaf_entries [OF r'(2)] er kr x by (simp add: drop_map)
  moreover have "\<forall>a\<in>set (leaf_keys right). a < k"
    using gt kr by (auto dest!: in_set_dropD)
  ultimately have wr: "subtree_ok cap 0 (Some ?sep) None r'"
    using r'(2,4) sl(2) rgt sep_lt by (auto simp: sorted_wrt_append)
  let ?t = "InnerNode 1 2 ((replicate cap None)[0 := Some ?sep])
              ((replicate cap Null)[0 := left, 1 := r'])"
  have nr: "new_root cap 1 left ?sep r' = Inr ?t" using new_root_exact [OF cap(1)] .
  from new_root_ok [OF cap _ wl wr, of ] nr
  have inv: "subtree_ok cap (Suc 0) None None ?t" "entries ?t = entries left @ entries r'"
    by auto
  obtain l0 kc0 ks0 vs0 where c0: "t0 = LeafNode l0 kc0 ks0 vs0" "l0 = 0" "kc0 = cap"
    using t0(2,3) by (cases t0) auto
  have p: "put cap t0 k v = Inr ?t"
    using c0 s(1) sep_lt r'(1) nr by (simp add: put_def)
  have lo: "leaf_object left" "leaf_object r'"
  proof -
    show "leaf_object left" using s(2) by (cases left) simp_all
    show "leaf_object r'" using r'(2) by (cases r') simp_all
  qed
  have d: "depth ?t = 2" using depth_new_root [OF cap(1) lo] .
  define c where "c = cap - 2"
  have c: "cap = Suc (Suc c)" using cap(1) by (simp add: c_def)
  have kd: "kids ?t = [left, r']" by (simp add: kids.simps c)
  have e: "entries ?t = kvs"
    using inv(2) entries_leaf [OF s(2)] entries_leaf [OF r'(2)] s(6) er kvs by simp
  have dist: "distinct (map fst kvs)" using srt by (simp add: strict_sorted_iff)
  have g: "get ?t a = Inr (Some b)" if "(a, b) \<in> set kvs" for a b
    using get_spec [OF tree_okI [OF inv(1)], of a] e dist that by simp
  show ?thesis
    using r p d kd lo g by (intro exI [of _ ?t] exI [of _ left] exI [of _ r']) auto
qed

text \<open>C5 at capacity 2, the smallest one the claim names.\<close>

theorem C5_split_witness:
  "(2::nat) \<le> 2 \<and> (2::nat) \<le> 65535 \<and>
   sorted_wrt (<) (map fst [(1::nat, 10::nat), (2, 20), (3, 30)]) \<and>
   length [(1::nat, 10::nat), (2, 20), (3, 30)] = Suc 2 \<and>
   (\<exists>t left right. run 2 Null (puts_of [(1::nat, 10::nat), (2, 20), (3, 30)]) = Inr t \<and>
      depth t = 2 \<and> inner_object t \<and> level t = 1 \<and> key_count t = 2 \<and>
      kids t = [left, right] \<and> leaf_object left \<and> leaf_object right \<and>
      (\<forall>(k, v) \<in> set [(1::nat, 10::nat), (2, 20), (3, 30)]. get t k = Inr (Some v)))"
proof -
  have c: "(2::nat) \<le> 2" "(2::nat) \<le> 65535" by simp_all
  have s: "sorted_wrt (<) (map fst [(1::nat, 10::nat), (2, 20), (3, 30)])"
    "length [(1::nat, 10::nat), (2, 20), (3, 30)] = Suc 2" by simp_all
  show ?thesis using c s C5_split [OF c s] by blast
qed

text \<open>
  C5 as stated, for every capacity of at least 2, fails at capacity 65536: after
  \<open>65537\<close> increasing keys the tree is still a single leaf, of depth 1, because the 16-bit
  \<^verbatim>\<open>key_count\<close> never reaches the capacity and no split happens.
\<close>

theorem C5_counterexample:
  "depth_after 65536 (puts_of (ascending 65537)) = Inr 1"
proof -
  have e: "Suc 65535 = (65536::nat)" "Suc (Suc 65535) = (65537::nat)" "Suc 65536 = (65537::nat)"
    by simp_all
  have "depth_after (Suc 65535) (puts_of (ascending (Suc (Suc 65535)))) = Inr 1"
    by (rule count_wrap_get(2)) simp_all
  then show ?thesis unfolding e .
qed

text \<open>
  C6, amended. In every tree \<open>t\<close> reached from the fresh one (capacity from 3 to 65535, root
  level below 65535 before each put, the two puts included), \<^verbatim>\<open>put(k, v1)\<close> and then
  \<^verbatim>\<open>put(k, v2)\<close> both return, a following \<^verbatim>\<open>get(k)\<close> returns \<open>v2\<close>, the second put leaves
  the sequence of stored keys as it was, and \<open>k\<close> is stored exactly once. The count of the
  leaf that holds \<open>k\<close> is not promised to stay: the second put splits that leaf first when it
  is full.
\<close>

theorem C6_update:
  fixes ops :: "('k::linorder, 'v) op list"
  assumes cap: "3 \<le> cap" "cap \<le> 65535"
    and fit: "levels_fit cap Null (ops @ [Put k v1, Put k v2])"
  shows "\<exists>t t1 t2. run cap Null ops = Inr t \<and> put cap t k v1 = Inr t1 \<and>
           put cap t1 k v2 = Inr t2 \<and> get t2 k = Inr (Some v2) \<and>
           map fst (entries t2) = map fst (entries t1) \<and>
           count_list (map fst (entries t2)) k = 1"
proof -
  have f0: "levels_fit cap Null ops" using fit by (simp add: levels_fit_append)
  from reach [OF cap f0] obtain t where t: "run cap Null ops = Inr t" "tree_ok cap t" by blast
  have f1: "tree_level t < 65535" using fit t(1) by (simp add: levels_fit_append)
  from put_spec [OF cap t(2) f1, of k v1]
  obtain t1 where t1: "put cap t k v1 = Inr t1" "tree_ok cap t1"
    "entries t1 = upd k v1 (entries t)" by blast
  have f2: "tree_level t1 < 65535" using fit t(1) t1(1) by (simp add: levels_fit_append)
  from put_spec [OF cap t1(2) f2, of k v2]
  obtain t2 where t2: "put cap t1 k v2 = Inr t2" "tree_ok cap t2"
    "entries t2 = upd k v2 (entries t1)" by blast
  have mem: "k \<in> fst ` set (entries t1)" using t1(3) set_map_fst_upd [of k v1 "entries t"] by simp
  have s1: "sorted_wrt (<) (map fst (entries t1))" using tree_entries_sorted [OF t1(2)] .
  have same: "map fst (entries t2) = map fst (entries t1)"
    using map_fst_upd_mem [OF s1 mem] t2(3) by simp
  have "distinct (map fst (entries t1))" using s1 by (simp add: strict_sorted_iff)
  then have cnt: "count_list (map fst (entries t2)) k = 1"
    using mem same count_distinct [of "map fst (entries t1)" k] by simp
  have g: "get t2 k = Inr (Some v2)"
    using get_spec [OF t2(2), of k] t2(3) by (simp add: map_of_upd)
  show ?thesis using t(1) t1(1) t2(1) g same cnt by blast
qed

text \<open>C6 on the tree with keys 1 and 2 at capacity 3, for key 3.\<close>

theorem C6_update_witness:
  "(3::nat) \<le> 3 \<and> (3::nat) \<le> 65535 \<and>
   levels_fit 3 Null ([Put (1::nat) (10::nat), Put 2 20] @ [Put 3 30, Put 3 31]) \<and>
   (\<exists>t t1 t2. run 3 Null [Put (1::nat) (10::nat), Put 2 20] = Inr t \<and> put 3 t 3 30 = Inr t1 \<and>
      put 3 t1 3 31 = Inr t2 \<and> get t2 3 = Inr (Some 31) \<and>
      map fst (entries t2) = map fst (entries t1) \<and>
      count_list (map fst (entries t2)) 3 = 1)"
proof -
  have c: "(3::nat) \<le> 3" "(3::nat) \<le> 65535" by simp_all
  have h: "levels_fit 3 Null ([Put (1::nat) (10::nat), Put 2 20] @ [Put 3 30, Put 3 31])"
    by (rule levels_fit_fresh) simp_all
  show ?thesis using c h C6_update [OF c h] by blast
qed

text \<open>
  C6 as stated fails at capacity 3: after \<^verbatim>\<open>put(3, 30)\<close> the leaf that holds key 3 has
  \<^verbatim>\<open>key_count = 3\<close>; \<^verbatim>\<open>put(3, 31)\<close> finds the root leaf full, splits it before looking for
  the key, and updates key 3 in the new right leaf, whose \<^verbatim>\<open>key_count\<close> is 1.
\<close>

theorem C6_counterexample:
  "run 3 Null [Put (1::nat) (10::nat), Put 2 20, Put 3 30] =
     Inr (LeafNode 0 3 [Some 1, Some 2, Some 3] [Some 10, Some 20, Some 30]) \<and>
   run 3 Null [Put (1::nat) (10::nat), Put 2 20, Put 3 30, Put 3 31] =
     Inr (InnerNode 1 2 [Some 2, None, None]
       [LeafNode 0 2 [Some 1, Some 2, Some 3] [Some 10, Some 20, Some 30],
        LeafNode 0 1 [Some 3, None, None] [Some 31, None, None],
        Null])"
  by (simp add: eval_simps)

text \<open>
  C7, amended. In every tree reached from the fresh one (capacity from 3 to 65535, root level
  below 65535 before each put), every node has \<open>1 \<le> key_count \<le> capacity\<close>. A leaf holds
  \<open>key_count\<close> keys and values, in the first \<open>key_count\<close> slots of its arrays, all written.
  An inner node has \<open>key_count\<close> children, none of them null, and \<open>key_count - 1\<close>
  separators, in the first \<open>key_count - 1\<close> slots of its key array: its \<open>key_count\<close> is the
  number of children, one more than the number of separator keys.
\<close>

theorem C7_key_count:
  fixes ops :: "('k::linorder, 'v) op list"
  assumes "3 \<le> cap" "cap \<le> 65535" "levels_fit cap Null ops"
  shows "\<exists>t. run cap Null ops = Inr t \<and>
           (\<forall>m\<in>set (nodes t). 0 < key_count m \<and> key_count m \<le> cap \<and>
              (leaf_object m \<longrightarrow> length (leaf_keys m) = key_count m \<and>
                 initd (key_count m) (keys m) \<and> initd (key_count m) (vals m)) \<and>
              (inner_object m \<longrightarrow> Suc (length (seps m)) = key_count m \<and>
                 length (kids m) = key_count m \<and> initd (key_count m - 1) (keys m) \<and>
                 Null \<notin> set (kids m)))"
proof -
  from reach [OF assms] obtain t where t: "run cap Null ops = Inr t" "tree_ok cap t" by blast
  have "0 < key_count m \<and> key_count m \<le> cap \<and>
              (leaf_object m \<longrightarrow> length (leaf_keys m) = key_count m \<and>
                 initd (key_count m) (keys m) \<and> initd (key_count m) (vals m)) \<and>
              (inner_object m \<longrightarrow> Suc (length (seps m)) = key_count m \<and>
                 length (kids m) = key_count m \<and> initd (key_count m - 1) (keys m) \<and>
                 Null \<notin> set (kids m))" if "m \<in> set (nodes t)" for m
  proof -
    from tree_nodes [OF t(2) that] obtain h lo hi where "subtree_ok cap h lo hi m" by blast
    from subtree_ok_counts [OF this] show ?thesis .
  qed
  then show ?thesis using t(1) by blast
qed

text \<open>C7 at capacity 3, after the first root split.\<close>

theorem C7_key_count_witness:
  "(3::nat) \<le> 3 \<and> (3::nat) \<le> 65535 \<and>
   levels_fit 3 Null [Put (1::nat) (10::nat), Put 2 20, Put 3 30, Put 4 40] \<and>
   (\<exists>t. run 3 Null [Put (1::nat) (10::nat), Put 2 20, Put 3 30, Put 4 40] = Inr t \<and>
           (\<forall>m\<in>set (nodes t). 0 < key_count m \<and> key_count m \<le> 3 \<and>
              (leaf_object m \<longrightarrow> length (leaf_keys m) = key_count m \<and>
                 initd (key_count m) (keys m) \<and> initd (key_count m) (vals m)) \<and>
              (inner_object m \<longrightarrow> Suc (length (seps m)) = key_count m \<and>
                 length (kids m) = key_count m \<and> initd (key_count m - 1) (keys m) \<and>
                 Null \<notin> set (kids m))))"
proof -
  have c: "(3::nat) \<le> 3" "(3::nat) \<le> 65535" by simp_all
  have h: "levels_fit 3 Null [Put (1::nat) (10::nat), Put 2 20, Put 3 30, Put 4 40]"
    by (rule levels_fit_fresh) simp_all
  show ?thesis using c h C7_key_count [OF c h] by blast
qed

text \<open>
  C7 as stated (an inner node that holds \<open>s\<close> separator keys has \<open>key_count = s\<close>) fails after
  four puts at capacity 3: the root holds the single separator 2, in the only written slot of
  its key array, and has \<^verbatim>\<open>key_count = 2\<close>.
\<close>

theorem C7_counterexample:
  "run 3 Null [Put (1::nat) (10::nat), Put 2 20, Put 3 30, Put 4 40] =
     Inr (InnerNode 1 2 [Some 2, None, None]
       [LeafNode 0 2 [Some 1, Some 2, Some 3] [Some 10, Some 20, Some 30],
        LeafNode 0 2 [Some 3, Some 4, None] [Some 30, Some 40, None],
        Null]) \<and>
   seps (InnerNode 1 2 [Some (2::nat), None, None]
       [LeafNode 0 2 [Some 1, Some 2, Some 3] [Some (10::nat), Some 20, Some 30],
        LeafNode 0 2 [Some 3, Some 4, None] [Some 30, Some 40, None],
        Null]) = [2]"
  by (simp add: eval_simps seps.simps)

text \<open>
  C8, amended. In every tree reached from the fresh one (capacity of at least 3, root level
  below 65535 before each put), a node is a leaf object exactly when its level is 0 and an
  inner object exactly when its level is positive, and every child of an inner node is a node
  object whose level is one less than its parent's.
\<close>

theorem C8_levels:
  fixes ops :: "('k::linorder, 'v) op list"
  assumes "3 \<le> cap" "levels_fit cap Null ops"
  shows "\<exists>t. run cap Null ops = Inr t \<and>
           (\<forall>m\<in>set (nodes t). (leaf_object m \<longleftrightarrow> level m = 0) \<and>
              (inner_object m \<longleftrightarrow> 0 < level m) \<and>
              (\<forall>c\<in>set (kids m). (leaf_object c \<or> inner_object c) \<and> Suc (level c) = level m))"
proof -
  from reach_any [OF assms] obtain t where t: "run cap Null ops = Inr t"
    "tree_ok cap t \<or> one_leaf cap t" by blast
  have "(leaf_object m \<longleftrightarrow> level m = 0) \<and> (inner_object m \<longleftrightarrow> 0 < level m) \<and>
          (\<forall>c\<in>set (kids m). (leaf_object c \<or> inner_object c) \<and> Suc (level c) = level m)"
    if m: "m \<in> set (nodes t)" for m
    using t(2)
  proof
    assume "tree_ok cap t"
    from tree_nodes [OF this m] obtain h lo hi where "subtree_ok cap h lo hi m" by blast
    from subtree_ok_levels [OF this] show ?thesis .
  next
    assume "one_leaf cap t"
    from one_leaf_nodes [OF this m] have "leaf_ok cap m" by simp
    from leaf_ok_views [OF this] show ?thesis by simp
  qed
  then show ?thesis using t(1) by blast
qed

text \<open>C8 at capacity 3, on a tree with three levels.\<close>

theorem C8_levels_witness:
  "(3::nat) \<le> 3 \<and>
   levels_fit 3 Null [Put (4::nat) (40::nat), Put 3 30, Put 2 20, Put 1 10, Put 0 0, Put 5 50] \<and>
   (\<exists>t. run 3 Null [Put (4::nat) (40::nat), Put 3 30, Put 2 20, Put 1 10, Put 0 0, Put 5 50] = Inr t \<and>
           (\<forall>m\<in>set (nodes t). (leaf_object m \<longleftrightarrow> level m = 0) \<and>
              (inner_object m \<longleftrightarrow> 0 < level m) \<and>
              (\<forall>c\<in>set (kids m). (leaf_object c \<or> inner_object c) \<and> Suc (level c) = level m)))"
proof -
  have h: "levels_fit 3 Null [Put (4::nat) (40::nat), Put 3 30, Put 2 20, Put 1 10, Put 0 0, Put 5 50]"
    by (rule levels_fit_fresh) simp_all
  have c: "(3::nat) \<le> 3" by simp
  show ?thesis using c h C8_levels [OF c h] by blast
qed

text \<open>
  C8 as stated, for every reachable state, fails at capacity 3 after the 131074 puts of the
  keys \<open>0, -1, \<dots>, -131073\<close>: the root is an inner node whose level is 0 (65535 + 1 stored
  in a \<^verbatim>\<open>uint16_t\<close>), and its two children have level 65535.
\<close>

theorem C8_counterexample:
  "levels_after 3 (puts_of (descending 131074)) = Inr (True, 0, [65535, 65535])"
  using level_wraps by (auto simp: levels_after_def)

text \<open>
  C9, amended. In every tree reached from the fresh one (capacity of at least 3, root level
  below 65535 before each put), \<^verbatim>\<open>get(k)\<close> returns the absent result and no error for every
  key \<open>k\<close> that is not stored in the tree, and so for every key that was never put; on the
  empty tree it returns absent without any lock call.
\<close>

theorem C9_absent:
  fixes ops :: "('k::linorder, 'v) op list"
  assumes "3 \<le> cap" "levels_fit cap Null ops"
  shows "\<exists>t. run cap Null ops = Inr t \<and>
           (\<forall>k. k \<notin> fst ` set (entries t) \<longrightarrow> get t k = Inr None) \<and>
           (\<forall>k. latest ops k = None \<longrightarrow> get t k = Inr None) \<and>
           (\<forall>k. get_run (Null :: ('k, 'v) node) k = Inr ([], None))"
proof -
  from reach_any [OF assms] obtain t where t: "run cap Null ops = Inr t"
    "tree_ok cap t \<and> entries t = contents ops [] \<or>
     one_leaf cap t \<and> fst ` set (entries t) \<subseteq> put_keys ops" by blast
  have g: "get t k = Inr (map_of (entries t) k)" for k
    using t(2) get_spec [of cap t k] get_one_leaf [of cap t k] by blast
  have a: "get t k = Inr None" if "k \<notin> fst ` set (entries t)" for k
    using g [of k] that by (simp add: map_of_eq_None_iff)
  have b: "get t k = Inr None" if l: "latest ops k = None" for k
    using t(2)
  proof
    assume "tree_ok cap t \<and> entries t = contents ops []"
    then show ?thesis using g [of k] map_of_contents [of ops "[]" k] l by simp
  next
    assume "one_leaf cap t \<and> fst ` set (entries t) \<subseteq> put_keys ops"
    then have "k \<notin> fst ` set (entries t)" using put_keys_latest [OF l] by blast
    then show ?thesis by (rule a)
  qed
  have c: "get_run (Null :: ('k, 'v) node) k = Inr ([], None)" for k
    by (simp add: get_run_def)
  show ?thesis using t(1) a b c by blast
qed

text \<open>C9 at capacity 3, after four puts that split the root leaf, for the missing key 4.\<close>

theorem C9_absent_witness:
  "(3::nat) \<le> 3 \<and>
   levels_fit 3 Null [Put (1::nat) (10::nat), Put 3 30, Put 5 50, Put 8 80] \<and>
   latest [Put (1::nat) (10::nat), Put 3 30, Put 5 50, Put 8 80] 4 = None \<and>
   (\<exists>t. run 3 Null [Put (1::nat) (10::nat), Put 3 30, Put 5 50, Put 8 80] = Inr t \<and>
      get t 4 = Inr None \<and>
      (\<forall>k. k \<notin> fst ` set (entries t) \<longrightarrow> get t k = Inr None) \<and>
      (\<forall>k. get_run (Null :: (nat, nat) node) k = Inr ([], None)))"
proof -
  have h: "levels_fit 3 Null [Put (1::nat) (10::nat), Put 3 30, Put 5 50, Put 8 80]"
    by (rule levels_fit_fresh) simp_all
  have c: "(3::nat) \<le> 3" by simp
  have l: "latest [Put (1::nat) (10::nat), Put 3 30, Put 5 50, Put 8 80] 4 = None" by simp
  show ?thesis using c h l C9_absent [OF c h] by blast
qed

text \<open>
  C9 as stated, for every tree state, fails at capacity 3 after the 131074 puts of the keys
  \<open>0, -1, \<dots>, -131073\<close>: the root is an inner node whose level field holds 0, so
  \<^verbatim>\<open>get(1)\<close>, for a key that was never put, skips the descent and casts the root to
  \<^verbatim>\<open>LeafNode*\<close>.
\<close>

theorem C9_counterexample:
  "get_after 3 (puts_of (descending 131074)) 1 = Inl BadCast \<and>
   1 \<notin> fst ` set (descending 131074)"
proof -
  from level_wraps obtain t where t: "run 3 Null (puts_of (descending 131074)) = Inr t"
    "inner_object t" "level t = 0" by blast
  have "get_after 3 (puts_of (descending 131074)) 1 = Inl BadCast"
    using t(1) get_wrapped [OF t(2,3)] by (simp add: get_after_def)
  moreover have "1 \<notin> fst ` set (descending 131074)"
    unfolding descending_keys by auto
  ultimately show ?thesis by (intro conjI)
qed




end
